theory Spec2Isabelle
  imports Main "HOL-Library.Sublist" "HOL-Library.Char_ord" "HOL-Library.AList"
begin

section \<open>Strings and host primitives\<close>

text \<open>
  JavaScript strings are modelled as Isabelle strings (lists of 8-bit characters). The
  host primitives the viewer calls on them are written out for that alphabet:
  decimal rendering of a non-negative integer (template literals and \<open>String(index)\<close>),
  \<open>Array.prototype.join\<close>, \<open>String.prototype.toLowerCase\<close> (the capitals of Latin-1),
  \<open>String.prototype.replaceAll\<close> with a one-character search string, and
  \<open>String.prototype.includes\<close>.
\<close>

definition digit_char :: "nat \<Rightarrow> char" where
  "digit_char d = char_of (48 + d)"

fun decimal :: "nat \<Rightarrow> string" where
  "decimal n = (if n < 10 then [digit_char n] else decimal (n div 10) @ [digit_char (n mod 10)])"

declare decimal.simps [simp del]

fun join :: "string \<Rightarrow> string list \<Rightarrow> string" where
  "join sep [] = []"
| "join sep [x] = x"
| "join sep (x # y # ys) = x @ sep @ join sep (y # ys)"

definition lower_char :: "char \<Rightarrow> char" where
  "lower_char c =
     (let n = (of_char c :: nat) in
      if (65 \<le> n \<and> n \<le> 90) \<or> (192 \<le> n \<and> n \<le> 222 \<and> n \<noteq> 215) then char_of (n + 32) else c)"

definition toLowerCase :: "string \<Rightarrow> string" where
  "toLowerCase s = map lower_char s"

definition replaceAll :: "string \<Rightarrow> char \<Rightarrow> string \<Rightarrow> string" where
  "replaceAll s c r = concat (map (\<lambda>x. if x = c then r else [x]) s)"

fun str_includes :: "string \<Rightarrow> string \<Rightarrow> bool" where
  "str_includes [] q = (q = [])"
| "str_includes (c # cs) q = (prefix q (c # cs) \<or> str_includes cs q)"

section \<open>JSON values\<close>

text \<open>
  \<open>JsonValue\<close> of \<open>jsonTypes.ts\<close>. An object is the list of its entries in the order
  \<open>Object.entries\<close> enumerates them. The viewer never computes with a number, it only
  renders it, so a finite number is carried as the text \<open>Number.prototype.toString\<close>
  gives for it; \<open>JSON.parse\<close> yields an infinity for a literal out of range.
\<close>

datatype JsonNumber = Finite string | PosInfinity | NegInfinity

datatype JsonValue =
    JNull
  | JBoolean bool
  | JNumber JsonNumber
  | JString string
  | JArray "JsonValue list"
  | JObject "(string \<times> JsonValue) list"

datatype NodeKind = KObject | KArray | KString | KNumber | KBoolean | KNull

datatype PathSegment = Key string | Index nat

fun determineKind :: "JsonValue \<Rightarrow> NodeKind" where
  "determineKind JNull = KNull"
| "determineKind (JArray xs) = KArray"
| "determineKind (JObject kvs) = KObject"
| "determineKind (JString s) = KString"
| "determineKind (JNumber n) = KNumber"
| "determineKind (JBoolean b) = KBoolean"

section \<open>Path Formatter\<close>

definition dquote :: char where
  "dquote = CHR 0x22"

definition backslash :: char where
  "backslash = CHR 0x5C"

definition is_ident_start :: "char \<Rightarrow> bool" where
  "is_ident_start c =
     ((CHR ''A'' \<le> c \<and> c \<le> CHR ''Z'') \<or> (CHR ''a'' \<le> c \<and> c \<le> CHR ''z'') \<or> c = CHR ''_'' \<or> c = CHR ''$'')"

definition is_ident_part :: "char \<Rightarrow> bool" where
  "is_ident_part c = (is_ident_start c \<or> (CHR ''0'' \<le> c \<and> c \<le> CHR ''9''))"

text \<open>\<open>IDENTIFIER_RE.test\<close> for \<open>/^[A-Za-z_$][A-Za-z0-9_$]*$/\<close>.\<close>

fun IDENTIFIER_RE_test :: "string \<Rightarrow> bool" where
  "IDENTIFIER_RE_test [] = False"
| "IDENTIFIER_RE_test (c # cs) = (is_ident_start c \<and> list_all is_ident_part cs)"

definition path_step :: "string \<Rightarrow> PathSegment \<Rightarrow> string" where
  "path_step path segment =
     (case segment of
        Index n \<Rightarrow> path @ ''['' @ decimal n @ '']''
      | Key k \<Rightarrow>
          if IDENTIFIER_RE_test k then path @ ''.'' @ k
          else path @ [CHR ''['', dquote]
                 @ replaceAll (replaceAll k backslash [backslash, backslash]) dquote [backslash, dquote]
                 @ [dquote, CHR '']''])"

definition pathTextFromSegments :: "PathSegment list \<Rightarrow> string" where
  "pathTextFromSegments segments = (if length segments = 0 then ''$'' else foldl path_step ''$'' segments)"

text \<open>The rule as the specification words it: one piece per segment, left to right.\<close>

definition escape_key :: "string \<Rightarrow> string" where
  "escape_key k = concat (map (\<lambda>c. if c = backslash \<or> c = dquote then [backslash, c] else [c]) k)"

definition spec_piece :: "PathSegment \<Rightarrow> string" where
  "spec_piece segment =
     (case segment of
        Index n \<Rightarrow> ''['' @ decimal n @ '']''
      | Key k \<Rightarrow> if IDENTIFIER_RE_test k then ''.'' @ k else [CHR ''['', dquote] @ escape_key k @ [dquote, CHR '']''])"

definition spec_path :: "PathSegment list \<Rightarrow> string" where
  "spec_path segments = ''$'' @ concat (map spec_piece segments)"

section \<open>Host serialisation of JSON values\<close>

text \<open>
  \<open>String(v)\<close> and \<open>JSON.stringify(v)\<close> (compact, and with a two-space indent) as
  ECMAScript defines them on parsed JSON values.
\<close>

definition number_String :: "JsonNumber \<Rightarrow> string" where
  "number_String n = (case n of Finite t \<Rightarrow> t | PosInfinity \<Rightarrow> ''Infinity'' | NegInfinity \<Rightarrow> ''-Infinity'')"

definition number_JSON :: "JsonNumber \<Rightarrow> string" where
  "number_JSON n = (case n of Finite t \<Rightarrow> t | PosInfinity \<Rightarrow> ''null'' | NegInfinity \<Rightarrow> ''null'')"

definition hex_char :: "nat \<Rightarrow> char" where
  "hex_char d = ''0123456789abcdef'' ! d"

definition escape_json_char :: "char \<Rightarrow> string" where
  "escape_json_char c =
     (if c = dquote then [backslash, dquote]
      else if c = backslash then [backslash, backslash]
      else if c = CHR 0x08 then [backslash, CHR ''b'']
      else if c = CHR 0x09 then [backslash, CHR ''t'']
      else if c = CHR 0x0A then [backslash, CHR ''n'']
      else if c = CHR 0x0C then [backslash, CHR ''f'']
      else if c = CHR 0x0D then [backslash, CHR ''r'']
      else if (of_char c :: nat) < 32
        then [backslash, CHR ''u'', CHR ''0'', CHR ''0'', hex_char (of_char c div 16), hex_char (of_char c mod 16)]
      else [c])"

definition QuoteJSONString :: "string \<Rightarrow> string" where
  "QuoteJSONString s = [dquote] @ concat (map escape_json_char s) @ [dquote]"

fun js_String :: "JsonValue \<Rightarrow> string" where
  "js_String JNull = ''null''"
| "js_String (JBoolean b) = (if b then ''true'' else ''false'')"
| "js_String (JNumber n) = number_String n"
| "js_String (JString s) = s"
| "js_String (JArray xs) = join '','' (map (\<lambda>x. if x = JNull then [] else js_String x) xs)"
| "js_String (JObject kvs) = ''[object Object]''"

fun JSON_stringify :: "JsonValue \<Rightarrow> string" where
  "JSON_stringify JNull = ''null''"
| "JSON_stringify (JBoolean b) = (if b then ''true'' else ''false'')"
| "JSON_stringify (JNumber n) = number_JSON n"
| "JSON_stringify (JString s) = QuoteJSONString s"
| "JSON_stringify (JArray xs) = ''['' @ join '','' (map JSON_stringify xs) @ '']''"
| "JSON_stringify (JObject kvs) =
     ''{'' @ join '','' (map (\<lambda>kv. QuoteJSONString (fst kv) @ '':'' @ JSON_stringify (snd kv)) kvs) @ ''}''"

text \<open>\<open>JSON.stringify(v, null, gap)\<close>; \<open>ind\<close> is the indentation of the enclosing line.\<close>

fun JSON_stringify_indent :: "nat \<Rightarrow> nat \<Rightarrow> JsonValue \<Rightarrow> string" where
  "JSON_stringify_indent gap ind (JArray xs) =
     (if xs = [] then ''[]''
      else ''['' @ [CHR 0x0A] @ replicate (ind + gap) CHR '' ''
        @ join ('','' @ [CHR 0x0A] @ replicate (ind + gap) CHR '' '')
            (map (JSON_stringify_indent gap (ind + gap)) xs)
        @ [CHR 0x0A] @ replicate ind CHR '' '' @ '']'')"
| "JSON_stringify_indent gap ind (JObject kvs) =
     (if kvs = [] then ''{}''
      else ''{'' @ [CHR 0x0A] @ replicate (ind + gap) CHR '' ''
        @ join ('','' @ [CHR 0x0A] @ replicate (ind + gap) CHR '' '')
            (map (\<lambda>kv. QuoteJSONString (fst kv) @ '': '' @ JSON_stringify_indent gap (ind + gap) (snd kv)) kvs)
        @ [CHR 0x0A] @ replicate ind CHR '' '' @ ''}'')"
| "JSON_stringify_indent gap ind v = JSON_stringify v"

section \<open>Tree Indexer\<close>

record TreeNode =
  node_id :: string
  displayKey :: "string option"
  node_value :: JsonValue
  kind :: NodeKind
  depth :: nat
  pathSegments :: "PathSegment list"
  pathText :: string
  parentId :: "string option"
  childrenIds :: "string list"
  hasChildren :: bool
  summary :: string
  searchText :: string

text \<open>
  \<open>nodes\<close> is a JavaScript object used as a dictionary: its entries in insertion order,
  which is the order \<open>Object.entries\<close> and \<open>Object.values\<close> enumerate keys of the
  form \<open>node-N\<close>. \<open>nodes[id] = node\<close> is \<open>AList.update\<close>, \<open>nodes[id]\<close> is \<open>map_of\<close>.
\<close>

record TreeData =
  nodes :: "(string \<times> TreeNode) list"
  rootIds :: "string list"

text \<open>The template literal \<open>`node-${n}`\<close>.\<close>

definition nodeId :: "nat \<Rightarrow> string" where
  "nodeId n = ''node-'' @ decimal n"

text \<open>The variables \<open>nodes\<close> and \<open>sequence\<close> that the closure \<open>build\<close> mutates.\<close>

record build_state =
  bs_nodes :: "(string \<times> TreeNode) list"
  bs_sequence :: nat

definition entry_count :: "JsonValue \<Rightarrow> nat" where
  "entry_count v = (case v of JObject obj \<Rightarrow> length obj | JArray arr \<Rightarrow> length arr | _ \<Rightarrow> 0)"

definition summary_of :: "NodeKind \<Rightarrow> JsonValue \<Rightarrow> string" where
  "summary_of k current =
     (if k = KObject then ''{'' @ decimal (entry_count current) @ '' keys}''
      else if k = KArray then ''['' @ decimal (entry_count current) @ '' items]''
      else JSON_stringify current)"

definition make_node ::
  "string \<Rightarrow> JsonValue \<Rightarrow> PathSegment list \<Rightarrow> string option \<Rightarrow> string option \<Rightarrow> nat \<Rightarrow> TreeNode" where
  "make_node ident current segs dkey parent d =
     (let k = determineKind current; ptext = pathTextFromSegments segs in
      \<lparr> node_id = ident,
        displayKey = dkey,
        node_value = current,
        kind = k,
        depth = d,
        pathSegments = segs,
        pathText = ptext,
        parentId = parent,
        childrenIds = [],
        hasChildren = (k = KObject \<or> k = KArray),
        summary = summary_of k current,
        searchText =
          toLowerCase (join '' ''
            [ (case dkey of None \<Rightarrow> [] | Some s \<Rightarrow> s),
              ptext,
              (if k = KObject then ''object'' else if k = KArray then ''array'' else js_String current),
              summary_of k current ]) \<rparr>)"

text \<open>
  \<open>node.childrenIds.push(childId)\<close>: \<open>node\<close> is the object stored in \<open>nodes\<close> under its
  id, so the push shows in \<open>nodes\<close>.
\<close>

definition push_child :: "string \<Rightarrow> string \<Rightarrow> build_state \<Rightarrow> build_state" where
  "push_child ident childId st =
     st\<lparr>bs_nodes := AList.map_entry ident (\<lambda>n. n\<lparr>childrenIds := childrenIds n @ [childId]\<rparr>) (bs_nodes st)\<rparr>"

function (sequential) build ::
    "JsonValue \<Rightarrow> PathSegment list \<Rightarrow> string option \<Rightarrow> string option \<Rightarrow> nat \<Rightarrow> build_state
      \<Rightarrow> string \<times> build_state"
  and build_entries ::
    "(string \<times> JsonValue) list \<Rightarrow> PathSegment list \<Rightarrow> string \<Rightarrow> nat \<Rightarrow> build_state \<Rightarrow> build_state"
  and build_items ::
    "JsonValue list \<Rightarrow> nat \<Rightarrow> PathSegment list \<Rightarrow> string \<Rightarrow> nat \<Rightarrow> build_state \<Rightarrow> build_state"
where
  "build current segs dkey parent d st =
     (let ident = nodeId (bs_sequence st);
          st1 = st\<lparr>bs_sequence := bs_sequence st + 1\<rparr>;
          node = make_node ident current segs dkey parent d;
          st2 = st1\<lparr>bs_nodes := AList.update ident node (bs_nodes st1)\<rparr>;
          st3 = (case current of JObject obj \<Rightarrow> build_entries obj segs ident d st2 | _ \<Rightarrow> st2);
          st4 = (case current of JArray arr \<Rightarrow> build_items arr 0 segs ident d st3 | _ \<Rightarrow> st3)
      in (ident, st4))"
| "build_entries [] segs ident d st = st"
| "build_entries ((key, child) # rest) segs ident d st =
     (let (childId, st') = build child (segs @ [Key key]) (Some key) (Some ident) (d + 1) st
      in build_entries rest segs ident d (push_child ident childId st'))"
| "build_items [] index segs ident d st = st"
| "build_items (child # rest) index segs ident d st =
     (let key = decimal index;
          (childId, st') = build child (segs @ [Index index]) (Some key) (Some ident) (d + 1) st
      in build_items rest (index + 1) segs ident d (push_child ident childId st'))"
  by pat_completeness auto
termination
  by (relation "measure (\<lambda>x. case x of
          Inl (v, _) \<Rightarrow> size v
        | Inr (Inl (es, _)) \<Rightarrow> size_list (size_prod (\<lambda>_. 0) size) es
        | Inr (Inr (xs, _)) \<Rightarrow> size_list size xs)") auto

declare build.simps [simp del]

definition buildTree :: "JsonValue \<Rightarrow> TreeData" where
  "buildTree v =
     (let (rootId, st) = build v [] None None 0 \<lparr>bs_nodes = [], bs_sequence = 0\<rparr>
      in \<lparr>nodes = bs_nodes st, rootIds = [rootId]\<rparr>)"

section \<open>The indexed tree as a pre-order listing\<close>

text \<open>
  A closed form of what \<open>build\<close> leaves in \<open>nodes\<close>: the nodes of a value in pre-order,
  numbered from \<open>s\<close>, each with its final \<open>childrenIds\<close>. Used to reason about the indexer.
\<close>

fun count :: "JsonValue \<Rightarrow> nat"
  and count_entries :: "(string \<times> JsonValue) list \<Rightarrow> nat"
  and count_items :: "JsonValue list \<Rightarrow> nat"
where
  "count JNull = 1"
| "count (JBoolean b) = 1"
| "count (JNumber n) = 1"
| "count (JString s) = 1"
| "count (JArray arr) = 1 + count_items arr"
| "count (JObject obj) = 1 + count_entries obj"
| "count_entries [] = 0"
| "count_entries ((k, c) # rest) = count c + count_entries rest"
| "count_items [] = 0"
| "count_items (c # rest) = count c + count_items rest"

fun kid_seqs :: "JsonValue list \<Rightarrow> nat \<Rightarrow> nat list" where
  "kid_seqs [] s = []"
| "kid_seqs (c # rest) s = s # kid_seqs rest (s + count c)"

definition kid_ids :: "JsonValue \<Rightarrow> nat \<Rightarrow> string list" where
  "kid_ids v s =
     (case v of JObject obj \<Rightarrow> map nodeId (kid_seqs (map snd obj) s)
      | JArray arr \<Rightarrow> map nodeId (kid_seqs arr s)
      | _ \<Rightarrow> [])"

definition flat_head ::
  "JsonValue \<Rightarrow> PathSegment list \<Rightarrow> string option \<Rightarrow> string option \<Rightarrow> nat \<Rightarrow> nat \<Rightarrow> string \<times> TreeNode" where
  "flat_head v segs dkey parent d s =
     (nodeId s, (make_node (nodeId s) v segs dkey parent d)\<lparr>childrenIds := kid_ids v (s + 1)\<rparr>)"

function (sequential) flat ::
    "JsonValue \<Rightarrow> PathSegment list \<Rightarrow> string option \<Rightarrow> string option \<Rightarrow> nat \<Rightarrow> nat
      \<Rightarrow> (string \<times> TreeNode) list"
  and flat_entries ::
    "(string \<times> JsonValue) list \<Rightarrow> PathSegment list \<Rightarrow> string \<Rightarrow> nat \<Rightarrow> nat \<Rightarrow> (string \<times> TreeNode) list"
  and flat_items ::
    "JsonValue list \<Rightarrow> nat \<Rightarrow> PathSegment list \<Rightarrow> string \<Rightarrow> nat \<Rightarrow> nat \<Rightarrow> (string \<times> TreeNode) list"
where
  "flat (JObject obj) segs dkey parent d s =
     flat_head (JObject obj) segs dkey parent d s # flat_entries obj segs (nodeId s) d (s + 1)"
| "flat (JArray arr) segs dkey parent d s =
     flat_head (JArray arr) segs dkey parent d s # flat_items arr 0 segs (nodeId s) d (s + 1)"
| "flat v segs dkey parent d s = [flat_head v segs dkey parent d s]"
| "flat_entries [] segs pid d s = []"
| "flat_entries ((k, c) # rest) segs pid d s =
     flat c (segs @ [Key k]) (Some k) (Some pid) (d + 1) s @ flat_entries rest segs pid d (s + count c)"
| "flat_items [] i segs pid d s = []"
| "flat_items (c # rest) i segs pid d s =
     flat c (segs @ [Index i]) (Some (decimal i)) (Some pid) (d + 1) s
     @ flat_items rest (i + 1) segs pid d (s + count c)"
  by pat_completeness auto
termination
  by (relation "measure (\<lambda>x. case x of
          Inl (v, _) \<Rightarrow> size v
        | Inr (Inl (es, _)) \<Rightarrow> size_list (size_prod (\<lambda>_. 0) size) es
        | Inr (Inr (xs, _)) \<Rightarrow> size_list size xs)") auto

text \<open>
  \<open>fresh ns s\<close>: every key of \<open>ns\<close> was made from a sequence number below \<open>s\<close>, so
  \<open>nodes[id] = node\<close> never overwrites an entry and every node object is stored under one key.
\<close>

definition fresh :: "(string \<times> TreeNode) list \<Rightarrow> nat \<Rightarrow> bool" where
  "fresh ns s \<longleftrightarrow> (\<forall>k \<in> fst ` set ns. \<exists>j<s. k = nodeId j)"

definition add_kids :: "string list \<Rightarrow> TreeNode \<Rightarrow> TreeNode" where
  "add_kids ks n = n\<lparr>childrenIds := childrenIds n @ ks\<rparr>"

section \<open>Well-formed trees\<close>

text \<open>\<open>treeData.nodes[id]\<close>, and the graph of the \<open>childrenIds\<close> and \<open>parentId\<close> links.\<close>

definition node_at :: "TreeData \<Rightarrow> string \<Rightarrow> TreeNode option" where
  "node_at t i = map_of (nodes t) i"

definition parent_child_graph :: "TreeData \<Rightarrow> (string \<times> string) set" where
  "parent_child_graph t =
     {(p, c). \<exists>n. node_at t p = Some n \<and> c \<in> set (childrenIds n)}
     \<union> {(p, c). \<exists>n. node_at t c = Some n \<and> parentId n = Some p}"

section \<open>Search text as specified, and copying\<close>

text \<open>
  \<open>spec_searchText\<close> is the search text as the specification words it: the lower-cased,
  space-joined \<open>displayKey\<close>, \<open>pathText\<close>, kind label and \<open>summary\<close>.
  \<open>getValueForCopy\<close> is the function of that name; its second argument is
  \<open>"value"\<close> or \<open>"subtree"\<close>, and the template literal on a value is \<open>js_String\<close>.
  \<open>made_by_indexer\<close> says that a node is what \<open>build\<close> stores, up to its \<open>childrenIds\<close>.
\<close>

definition kind_label :: "NodeKind \<Rightarrow> string" where
  "kind_label k =
     (case k of KObject \<Rightarrow> ''object'' | KArray \<Rightarrow> ''array'' | KString \<Rightarrow> ''string''
      | KNumber \<Rightarrow> ''number'' | KBoolean \<Rightarrow> ''boolean'' | KNull \<Rightarrow> ''null'')"

definition spec_searchText :: "TreeNode \<Rightarrow> string" where
  "spec_searchText n =
     toLowerCase (join '' ''
       [(case displayKey n of None \<Rightarrow> [] | Some s \<Rightarrow> s), pathText n, kind_label (kind n), summary n])"

datatype CopyKind = CopyValue | CopySubtree

definition getValueForCopy :: "TreeNode \<Rightarrow> CopyKind \<Rightarrow> string" where
  "getValueForCopy node k =
     (if k = CopySubtree then JSON_stringify_indent 2 0 (node_value node)
      else if kind node = KString then js_String (node_value node)
      else JSON_stringify (node_value node))"

definition made_by_indexer :: "string \<Rightarrow> TreeNode \<Rightarrow> bool" where
  "made_by_indexer i n \<longleftrightarrow>
     (\<exists>v segs dkey parent d kids. n = (make_node i v segs dkey parent d)\<lparr>childrenIds := kids\<rparr>)"

section \<open>Search Engine\<close>

text \<open>
  The search cache is a \<open>Map\<close> from query to ids, kept as its entries in insertion
  order: \<open>get\<close> is \<open>map_of\<close>, \<open>size\<close> is \<open>length\<close>, the first key of \<open>keys()\<close> is the key
  of the head, \<open>delete\<close> is \<open>AList.delete\<close> and \<open>set\<close> is \<open>AList.update\<close>.
  \<open>searchMatchIds\<close> is the body of the memo of that name; it returns the ids and the
  cache it leaves. \<open>prefix_candidates\<close> is its loop over the prefixes
  \<open>normalizedSearch.slice(0, i)\<close> for \<open>i\<close> from \<open>length - 1\<close> down to 1.
  \<open>naive_search\<close> scans every node; \<open>cache_coherent\<close> says every cached entry is what
  the scan of the current tree gives.
\<close>

type_synonym search_cache = "(string \<times> string list) list"

definition node_matches :: "string \<Rightarrow> string \<times> TreeNode \<Rightarrow> bool" where
  "node_matches q entry = str_includes (searchText (snd entry)) q"

fun prefix_candidates :: "TreeData \<Rightarrow> search_cache \<Rightarrow> string \<Rightarrow> nat \<Rightarrow> (string \<times> TreeNode) list" where
  "prefix_candidates t cache q 0 = nodes t"
| "prefix_candidates t cache q (Suc i) =
     (case map_of cache (take (Suc i) q) of
        None \<Rightarrow> prefix_candidates t cache q i
      | Some cachedPrefix \<Rightarrow>
          concat (map (\<lambda>ident. case node_at t ident of None \<Rightarrow> [] | Some node \<Rightarrow> [(ident, node)])
                    cachedPrefix))"

definition searchMatchIds :: "TreeData \<Rightarrow> search_cache \<Rightarrow> string \<Rightarrow> string list \<times> search_cache" where
  "searchMatchIds t cache normalizedSearch =
     (if normalizedSearch = [] then ([], cache)
      else case map_of cache normalizedSearch of
        Some cached \<Rightarrow> (cached, cache)
      | None \<Rightarrow>
          (let candidates = prefix_candidates t cache normalizedSearch (length normalizedSearch - 1);
               result = map fst (filter (node_matches normalizedSearch) candidates);
               cache1 = (if length cache > 40
                         then (case cache of [] \<Rightarrow> cache | oldest # _ \<Rightarrow> AList.delete (fst oldest) cache)
                         else cache);
               cache2 = AList.update normalizedSearch result cache1
           in (result, cache2)))"

definition naive_search :: "TreeData \<Rightarrow> string \<Rightarrow> string list" where
  "naive_search t q = map fst (filter (node_matches q) (nodes t))"

definition cache_coherent :: "TreeData \<Rightarrow> search_cache \<Rightarrow> bool" where
  "cache_coherent t cache \<longleftrightarrow> (\<forall>k ids. (k, ids) \<in> set cache \<longrightarrow> ids = naive_search t k)"

text \<open>A sequence of searches on one tree, each leaving its cache to the next.\<close>

definition run_searches :: "TreeData \<Rightarrow> string list \<Rightarrow> search_cache \<Rightarrow> search_cache" where
  "run_searches t qs cache = fold (\<lambda>q c. snd (searchMatchIds t c q)) qs cache"

definition forty_one_queries :: "string list" where
  "forty_one_queries = map (\<lambda>c. [c]) ''abcdefghijklmnopqrstuvwxyz0123456789-_.:;''"

section \<open>Visibility Resolver\<close>

text \<open>
  \<open>visibleScopeSet\<close> and \<open>visibleIds\<close> are the memos of those names. The \<open>while\<close> loop
  that follows \<open>parentId\<close> links (\<open>scope_walk\<close>) and the recursive closure
  \<open>traverse\<close> need not finish on an arbitrary \<open>TreeData\<close>, so both take fuel: the
  number of loop iterations, and the depth of the call stack; \<open>None\<close> stands for a run
  that does not finish within it. The scope is \<open>None\<close> for \<open>null\<close>. \<open>view\<close> holds the
  variables \<open>traverse\<close> closes over; \<open>out_of_scope\<close> is
  \<open>normalizedSearch && visibleScopeSet && !visibleScopeSet.has(id)\<close> and \<open>in_scope\<close> is
  \<open>visibleScopeSet?.has(id) ?? false\<close>.
\<close>

fun scope_walk :: "nat \<Rightarrow> TreeData \<Rightarrow> string option \<Rightarrow> string set \<Rightarrow> string set option" where
  "scope_walk 0 t current scope = None"
| "scope_walk (Suc fuel) t current scope =
     (case current of
        None \<Rightarrow> Some scope
      | Some c \<Rightarrow>
          if c = [] then Some scope
          else scope_walk fuel t
                 (case node_at t c of None \<Rightarrow> None | Some node \<Rightarrow> parentId node)
                 (insert c scope))"

fun scope_matches :: "nat \<Rightarrow> TreeData \<Rightarrow> string list \<Rightarrow> string set \<Rightarrow> string set option" where
  "scope_matches fuel t [] scope = Some scope"
| "scope_matches fuel t (matchId # rest) scope =
     (case scope_walk fuel t (Some matchId) scope of
        None \<Rightarrow> None
      | Some scope' \<Rightarrow> scope_matches fuel t rest scope')"

definition visibleScopeSet :: "nat \<Rightarrow> TreeData \<Rightarrow> string \<Rightarrow> string list \<Rightarrow> string set option option" where
  "visibleScopeSet fuel t normalizedSearch matchIds =
     (if normalizedSearch = [] then Some None
      else map_option Some (scope_matches fuel t matchIds {}))"

record view =
  v_tree :: TreeData
  v_collapsedIds :: "string set"
  v_normalizedSearch :: string
  v_visibleScopeSet :: "string set option"

definition in_scope :: "view \<Rightarrow> string \<Rightarrow> bool" where
  "in_scope vw ident = (case v_visibleScopeSet vw of None \<Rightarrow> False | Some s \<Rightarrow> ident \<in> s)"

definition out_of_scope :: "view \<Rightarrow> string \<Rightarrow> bool" where
  "out_of_scope vw ident =
     (v_normalizedSearch vw \<noteq> [] \<and> (case v_visibleScopeSet vw of None \<Rightarrow> False | Some s \<Rightarrow> ident \<notin> s))"

definition shouldExpand :: "view \<Rightarrow> string \<Rightarrow> TreeNode \<Rightarrow> bool" where
  "shouldExpand vw ident node =
     (length (childrenIds node) > 0
      \<and> (ident \<notin> v_collapsedIds vw \<or> (v_normalizedSearch vw \<noteq> [] \<and> in_scope vw ident)))"

function (sequential) traverse :: "nat \<Rightarrow> view \<Rightarrow> string \<Rightarrow> string list \<Rightarrow> string list option"
  and traverse_all :: "nat \<Rightarrow> view \<Rightarrow> string list \<Rightarrow> string list \<Rightarrow> string list option"
where
  "traverse 0 vw ident output = None"
| "traverse (Suc fuel) vw ident output =
     (case node_at (v_tree vw) ident of
        None \<Rightarrow> Some output
      | Some node \<Rightarrow>
          if out_of_scope vw ident then Some output
          else if \<not> shouldExpand vw ident node then Some (output @ [ident])
          else traverse_all fuel vw (childrenIds node) (output @ [ident]))"
| "traverse_all fuel vw [] output = Some output"
| "traverse_all fuel vw (childId # rest) output =
     (case traverse fuel vw childId output of
        None \<Rightarrow> None
      | Some output' \<Rightarrow> traverse_all fuel vw rest output')"
  by pat_completeness auto
termination
  by (relation "inv_image (less_than <*lex*> less_than)
        (\<lambda>x. case x of Inl (fuel, _) \<Rightarrow> (fuel, 0)
                      | Inr (fuel, vw, ids, _) \<Rightarrow> (fuel, Suc (length ids)))") auto

definition visibleIds ::
  "nat \<Rightarrow> TreeData \<Rightarrow> string set \<Rightarrow> string \<Rightarrow> string set option \<Rightarrow> string list option" where
  "visibleIds fuel t collapsedIds normalizedSearch scope =
     (if length (rootIds t) = 0 then Some []
      else traverse_all fuel
             \<lparr>v_tree = t, v_collapsedIds = collapsedIds, v_normalizedSearch = normalizedSearch,
              v_visibleScopeSet = scope\<rparr>
             (rootIds t) [])"

text \<open>
  The ancestors of a node, up to the root: what is reached from it along \<open>parentId\<close>
  links. \<open>enough_fuel\<close>, \<open>emits\<close> and \<open>closed_under_children\<close> are used in the proofs
  about \<open>traverse\<close>.
\<close>

definition parent_of :: "TreeData \<Rightarrow> string \<Rightarrow> string \<Rightarrow> bool" where
  "parent_of t x p \<longleftrightarrow> (\<exists>n. node_at t x = Some n \<and> parentId n = Some p)"

definition ancestor_or_self :: "TreeData \<Rightarrow> string \<Rightarrow> string \<Rightarrow> bool" where
  "ancestor_or_self t a m \<longleftrightarrow> rtranclp (parent_of t) m a"

declare traverse.simps [simp del] traverse_all.simps [simp del]

definition enough_fuel :: "JsonValue \<Rightarrow> nat \<Rightarrow> string \<Rightarrow> bool" where
  "enough_fuel v fuel ident \<longleftrightarrow>
     0 < fuel \<and> (\<forall>a. ident = nodeId a \<and> a < count v \<longrightarrow> count v - a \<le> fuel)"

definition emits :: "view \<Rightarrow> string \<Rightarrow> string list \<Rightarrow> bool" where
  "emits vw ident new \<longleftrightarrow>
     (node_at (v_tree vw) ident \<noteq> None \<and> in_scope vw ident \<longrightarrow> ident \<in> set new)"

definition closed_under_children :: "view \<Rightarrow> string list \<Rightarrow> bool" where
  "closed_under_children vw new \<longleftrightarrow>
     (\<forall>p \<in> set new. \<forall>n c. node_at (v_tree vw) p = Some n \<and> c \<in> set (childrenIds n) \<longrightarrow> emits vw c new)"

section \<open>Base64\<close>

text \<open>
  \<open>btoa\<close> and \<open>atob\<close> on binary strings (every character is a byte). \<open>btoa\<close> writes
  the bytes as their six-bit groups (\<open>sextets\<close>) in the standard alphabet and pads with
  \<open>=\<close> to a multiple of four characters. \<open>atob\<close> is the forgiving decoder of the
  browsers: it drops ASCII whitespace, drops one or two trailing \<open>=\<close> when the length is
  a multiple of four, fails (throws) on a length of 1 modulo 4 or on a character outside
  the alphabet, and reads the six-bit groups back as bytes (\<open>octets\<close>). \<open>base64url\<close> is
  what \<open>encodeBase64Utf8\<close> does to the output of \<open>btoa\<close>: \<open>+\<close> and \<open>/\<close> become \<open>-\<close>
  and \<open>_\<close>, and the trailing \<open>=\<close> are removed. \<open>to_url\<close>, \<open>from_url\<close>, \<open>base64_body\<close> and
  \<open>pad_count\<close> are used in the proofs.
\<close>

definition b64_alphabet :: string where
  "b64_alphabet = ''ABCDEFGHIJKLMNOPQRSTUVWXYZabcdefghijklmnopqrstuvwxyz0123456789+/''"


fun index_of :: "char \<Rightarrow> string \<Rightarrow> nat option" where
  "index_of c [] = None"
| "index_of c (x # xs) = (if c = x then Some 0 else map_option Suc (index_of c xs))"

definition b64_index :: "char \<Rightarrow> nat option" where
  "b64_index c = index_of c b64_alphabet"



fun octets :: "nat list \<Rightarrow> nat list" where
  "octets (a # b # c # d # rest) =
     [a * 4 + b div 16, (b mod 16) * 16 + c div 4, (c mod 4) * 64 + d] @ octets rest"
| "octets [a, b, c] = [a * 4 + b div 16, (b mod 16) * 16 + c div 4]"
| "octets [a, b] = [a * 4 + b div 16]"
| "octets [a] = []"
| "octets [] = []"

definition is_ascii_whitespace :: "char \<Rightarrow> bool" where
  "is_ascii_whitespace c = (c \<in> set [CHR 0x09, CHR 0x0A, CHR 0x0C, CHR 0x0D, CHR 0x20])"

definition strip_padding :: "string \<Rightarrow> string" where
  "strip_padding d =
     (if suffix ''=='' d then take (length d - 2) d
      else if suffix ''='' d then take (length d - 1) d
      else d)"

definition atob :: "string \<Rightarrow> string option" where
  "atob data =
     (let d1 = filter (\<lambda>c. \<not> is_ascii_whitespace c) data;
          d2 = (if length d1 mod 4 = 0 then strip_padding d1 else d1)
      in if length d2 mod 4 = 1 then None
         else if list_all (\<lambda>c. b64_index c \<noteq> None) d2
           then Some (map char_of (octets (map (\<lambda>c. case b64_index c of Some i \<Rightarrow> i | None \<Rightarrow> 0) d2)))
         else None)"







section \<open>Loading a document\<close>

text \<open>
  \<open>loadFromJsonText\<close> and \<open>encodeBase64Utf8\<close> call four functions of the browser
  besides \<open>btoa\<close> and \<open>atob\<close>: \<open>decodeURIComponent\<close>, \<open>TextEncoder.encode\<close>,
  \<open>TextDecoder.decode\<close> and \<open>JSON.parse\<close>. They are parameters of the model
  (\<open>host\<close>); a call that throws is \<open>None\<close> or \<open>Inl\<close> of the exception, and each
  \<open>try\<close>/\<open>catch\<close> of the source is the \<open>case\<close> that consumes it. The three error
  texts of the source are the constructors of \<open>load_error\<close>; \<open>ParseFailed\<close> carries the
  \<open>SyntaxError\<close> message. \<open>app_state\<close> holds the state variables of \<open>App\<close> that the load
  and the search touch, the search cache of \<open>searchResultCacheRef\<close>, and what React
  keeps between renders: the value \<open>useDeferredValue\<close> returned last, the identity of
  \<open>treeData.nodes\<close> (a version number, advanced by \<open>setTreeData\<close>), the version the
  cache-clearing effect last ran for, the dependencies and the value of the
  \<open>searchMatchIds\<close> memo, and the renders and effects still to run.
\<close>

datatype js_exception = SyntaxError string | OtherError string

record host =
  h_decodeURIComponent :: "string \<Rightarrow> string option"
  h_utf8_encode :: "string \<Rightarrow> string"
  h_utf8_decode :: "string \<Rightarrow> string option"
  h_JSON_parse :: "string \<Rightarrow> js_exception + JsonValue"

datatype load_error = ParseFailed string | InvalidInput string | NotJson

definition safeDecodeURIComponent :: "host \<Rightarrow> string \<Rightarrow> string" where
  "safeDecodeURIComponent h text = (case h_decodeURIComponent h text of Some d \<Rightarrow> d | None \<Rightarrow> text)"

definition normalizeBase64 :: "string \<Rightarrow> string" where
  "normalizeBase64 input =
     (let base64 = replaceAll (replaceAll input CHR ''-'' ''+'') CHR ''_'' ''/'';
          missing = length base64 mod 4
      in if missing = 0 then base64
         else if missing = 2 then base64 @ ''==''
         else if missing = 3 then base64 @ ''=''
         else base64)"

definition decodeBase64Utf8 :: "host \<Rightarrow> string \<Rightarrow> string option" where
  "decodeBase64Utf8 h input =
     (case atob (normalizeBase64 input) of
        None \<Rightarrow> None
      | Some binary \<Rightarrow> h_utf8_decode h binary)"




definition parseJson :: "host \<Rightarrow> string \<Rightarrow> load_error + JsonValue" where
  "parseJson h text =
     (case h_JSON_parse h text of
        Inr v \<Rightarrow> Inr v
      | Inl (SyntaxError message) \<Rightarrow> Inl (ParseFailed message)
      | Inl (OtherError e) \<Rightarrow> Inl (InvalidInput e))"

definition stringifyParsedValueForInput :: "JsonValue \<Rightarrow> string" where
  "stringifyParsedValueForInput v =
     (case v of JString s \<Rightarrow> s | JNull \<Rightarrow> ''null'' | _ \<Rightarrow> JSON_stringify_indent 2 0 v)"

definition DEFAULT_COLLAPSE_DEPTH :: nat where
  "DEFAULT_COLLAPSE_DEPTH = 2"

definition makeDefaultCollapsed :: "(string \<times> TreeNode) list \<Rightarrow> string set" where
  "makeDefaultCollapsed ns =
     set (map node_id (filter (\<lambda>node. hasChildren node \<and> depth node \<ge> DEFAULT_COLLAPSE_DEPTH) (map snd ns)))"

datatype work = UrgentRender | DeferredRender | RunEffects

record app_state =
  treeData :: TreeData
  collapsedIds :: "string set"
  selectedId :: "string option"
  searchInput :: string
  errorMessage :: "load_error option"
  pasteText :: string
  parsedJsonValue :: JsonValue
  rawCollapsed :: bool
  searchResultCache :: search_cache
  deferredSearchInput :: string
  treeVersion :: nat
  effectVersion :: nat
  memoDeps :: "(nat \<times> string) option"
  shownMatchIds :: "string list"
  pending :: "work list"

definition parseTargets :: "host \<Rightarrow> string \<Rightarrow> string list" where
  "parseTargets h rawText =
     (let candidateRaw = safeDecodeURIComponent h rawText in
      [candidateRaw] @
      (case decodeBase64Utf8 h candidateRaw of
         None \<Rightarrow> []
       | Some decoded \<Rightarrow> if decoded \<noteq> [] \<and> decoded \<notin> set [candidateRaw] then [decoded] else []))"

fun try_candidates :: "host \<Rightarrow> string list \<Rightarrow> load_error + JsonValue \<Rightarrow> load_error + JsonValue" where
  "try_candidates h [] parsed = parsed"
| "try_candidates h (candidate # rest) parsed =
     (case parseJson h candidate of
        Inr v \<Rightarrow> Inr v
      | Inl e \<Rightarrow> try_candidates h rest (Inl e))"

definition loadFromJsonText :: "host \<Rightarrow> string \<Rightarrow> app_state \<Rightarrow> bool \<times> app_state" where
  "loadFromJsonText h rawText s =
     (case try_candidates h (parseTargets h rawText) (Inl NotJson) of
        Inl e \<Rightarrow>
          (False, s\<lparr>errorMessage := Some e, parsedJsonValue := JNull, rawCollapsed := False,
                    searchInput := []\<rparr>)
      | Inr v \<Rightarrow>
          (let tree = buildTree v in
           (True, s\<lparr>pasteText := stringifyParsedValueForInput v,
                    treeData := tree,
                    treeVersion := treeVersion s + 1,
                    collapsedIds := makeDefaultCollapsed (nodes tree),
                    parsedJsonValue := v,
                    rawCollapsed := False,
                    selectedId := (case rootIds tree of [] \<Rightarrow> None | r # _ \<Rightarrow> Some r),
                    errorMessage := None,
                    searchInput := []\<rparr>)))"

section \<open>Renders and effects\<close>

text \<open>
  After an event handler has run React renders with the deferred search input
  unchanged (\<open>UrgentRender\<close>), runs the effects of that render, renders again with the
  deferred value caught up (\<open>DeferredRender\<close>) and runs the effects again
  (\<open>schedule\<close>). \<open>render\<close> evaluates the \<open>searchMatchIds\<close> memo when its dependencies
  changed; \<open>run_effects\<close> is the effect on \<open>[treeData.nodes]\<close> that clears the cache.
  \<open>step\<close> is one event (only when nothing is pending) or one pending render or effect.
\<close>

definition initial_state :: app_state where
  "initial_state =
     \<lparr>treeData = \<lparr>nodes = [], rootIds = []\<rparr>, collapsedIds = {}, selectedId = None,
      searchInput = [], errorMessage = None, pasteText = [], parsedJsonValue = JNull,
      rawCollapsed = False, searchResultCache = [], deferredSearchInput = [],
      treeVersion = 0, effectVersion = 0, memoDeps = None, shownMatchIds = [], pending = []\<rparr>"

definition is_space :: "char \<Rightarrow> bool" where
  "is_space c = (c \<in> set [CHR 0x09, CHR 0x0A, CHR 0x0B, CHR 0x0C, CHR 0x0D, CHR 0x20, CHR 0xA0])"

definition trim :: "string \<Rightarrow> string" where
  "trim s = rev (dropWhile is_space (rev (dropWhile is_space s)))"

definition normalizedSearch :: "app_state \<Rightarrow> string" where
  "normalizedSearch s = toLowerCase (trim (deferredSearchInput s))"

definition render :: "app_state \<Rightarrow> app_state" where
  "render s =
     (let deps = (treeVersion s, normalizedSearch s) in
      if memoDeps s = Some deps then s
      else (let (ids, cache) = searchMatchIds (treeData s) (searchResultCache s) (normalizedSearch s)
            in s\<lparr>searchResultCache := cache, shownMatchIds := ids, memoDeps := Some deps\<rparr>))"

definition run_effects :: "app_state \<Rightarrow> app_state" where
  "run_effects s =
     (if effectVersion s \<noteq> treeVersion s
      then s\<lparr>searchResultCache := [], effectVersion := treeVersion s\<rparr>
      else s)"

definition do_work :: "work \<Rightarrow> app_state \<Rightarrow> app_state" where
  "do_work w s =
     (case w of
        UrgentRender \<Rightarrow> render s
      | DeferredRender \<Rightarrow> render (s\<lparr>deferredSearchInput := searchInput s\<rparr>)
      | RunEffects \<Rightarrow> run_effects s)"

definition schedule :: "work list" where
  "schedule = [UrgentRender, RunEffects, DeferredRender, RunEffects]"

inductive step :: "host \<Rightarrow> app_state \<Rightarrow> app_state \<Rightarrow> bool" for h where
  load: "pending s = [] \<Longrightarrow> step h s ((snd (loadFromJsonText h rawText s))\<lparr>pending := schedule\<rparr>)"
| type: "pending s = [] \<Longrightarrow> step h s (s\<lparr>searchInput := text, pending := schedule\<rparr>)"
| work: "pending s = w # ws \<Longrightarrow> step h s ((do_work w s)\<lparr>pending := ws\<rparr>)"

definition reachable :: "host \<Rightarrow> app_state \<Rightarrow> bool" where
  "reachable h s \<longleftrightarrow> rtranclp (step h) initial_state s"

text \<open>
  The documents and the host of the examples. \<open>example_host\<close> agrees with a browser on
  the texts the examples use: texts without \<open>%\<close> are their own percent-decoding,
  ASCII texts are their own UTF-8 encoding, and \<open>JSON.parse\<close> reads the compact text of
  each example document and rejects the malformed text and the base64 texts. \<open>settle n\<close> runs up to
  \<open>n\<close> pending renders and effects; \<open>stale_state\<close> is the state after loading
  \<open>doc_A\<close>, typing the query \<open>hit\<close>, loading \<open>doc_B\<close> and the first render that follows.
\<close>

definition doc_A :: JsonValue where
  "doc_A = JObject [(''k'', JString ''hit'')]"

definition doc_B :: JsonValue where
  "doc_B = JObject [(''k'', JString ''y'')]"

definition example_host :: host where
  "example_host =
     \<lparr>h_decodeURIComponent = (\<lambda>s. if CHR ''%'' \<in> set s then None else Some s),
      h_utf8_encode = (\<lambda>s. s),
      h_utf8_decode = Some,
      h_JSON_parse = (\<lambda>s. if s = JSON_stringify doc_A then Inr doc_A
                          else if s = JSON_stringify doc_B then Inr doc_B
                          else if s = JSON_stringify (JArray [JNull]) then Inr (JArray [JNull])
                          else Inl (SyntaxError ''Unexpected token''))\<rparr>"

fun settle :: "nat \<Rightarrow> app_state \<Rightarrow> app_state" where
  "settle 0 s = s"
| "settle (Suc n) s =
     (case pending s of [] \<Rightarrow> s | w # ws \<Rightarrow> settle n ((do_work w s)\<lparr>pending := ws\<rparr>))"

definition on_load :: "host \<Rightarrow> string \<Rightarrow> app_state \<Rightarrow> app_state" where
  "on_load h rawText s = (snd (loadFromJsonText h rawText s))\<lparr>pending := schedule\<rparr>"

definition on_type :: "string \<Rightarrow> app_state \<Rightarrow> app_state" where
  "on_type text s = s\<lparr>searchInput := text, pending := schedule\<rparr>"

definition stale_state :: app_state where
  "stale_state =
     settle 1 (on_load example_host (JSON_stringify doc_B)
       (settle 4 (on_type ''hit''
         (settle 4 (on_load example_host (JSON_stringify doc_A) initial_state)))))"

section \<open>The functions of the browser\<close>

text \<open>
  The host functions as a browser has them, over the alphabet of the model (code units up
  to U+00FF). \<open>JSON_parse\<close> reads the JSON grammar by recursive descent.
  \<open>skip_ws\<close> drops insignificant whitespace; \<open>parse_chars\<close> reads the characters of a
  string up to its closing quote, with \<open>unescape\<close> for what follows a backslash;
  \<open>lex_number\<close> takes a number literal: sign, integer part, fraction, exponent. An escape of
  four hex digits for a code unit above U+00FF is outside the alphabet and gives \<open>None\<close>.
\<close>

definition is_json_ws :: "char \<Rightarrow> bool" where
  "is_json_ws c = (c \<in> set [CHR 0x09, CHR 0x0A, CHR 0x0D, CHR 0x20])"

definition skip_ws :: "string \<Rightarrow> string" where
  "skip_ws s = dropWhile is_json_ws s"

definition is_digit :: "char \<Rightarrow> bool" where
  "is_digit c = (CHR ''0'' \<le> c \<and> c \<le> CHR ''9'')"

definition hex_value :: "char \<Rightarrow> nat option" where
  "hex_value c =
     (let n = (of_char c :: nat) in
      if 48 \<le> n \<and> n \<le> 57 then Some (n - 48)
      else if 65 \<le> n \<and> n \<le> 70 then Some (n - 55)
      else if 97 \<le> n \<and> n \<le> 102 then Some (n - 87)
      else None)"

definition unescape :: "string \<Rightarrow> (char \<times> nat) option" where
  "unescape s =
     (case s of
        [] \<Rightarrow> None
      | e # cs \<Rightarrow>
          if e = dquote then Some (dquote, 1)
          else if e = backslash then Some (backslash, 1)
          else if e = CHR ''/'' then Some (CHR ''/'', 1)
          else if e = CHR ''b'' then Some (CHR 0x08, 1)
          else if e = CHR ''f'' then Some (CHR 0x0C, 1)
          else if e = CHR ''n'' then Some (CHR 0x0A, 1)
          else if e = CHR ''r'' then Some (CHR 0x0D, 1)
          else if e = CHR ''t'' then Some (CHR 0x09, 1)
          else if e = CHR ''u'' then
            (case cs of
               a # b # c # d # rest \<Rightarrow>
                 (case (hex_value a, hex_value b, hex_value c, hex_value d) of
                    (Some x, Some y, Some z, Some w) \<Rightarrow>
                      if x = 0 \<and> y = 0 then Some (char_of (z * 16 + w), 5) else None
                  | _ \<Rightarrow> None)
             | _ \<Rightarrow> None)
          else None)"

function parse_chars :: "string \<Rightarrow> (string \<times> string) option" where
  "parse_chars [] = None"
| "parse_chars (c # cs) =
     (if c = dquote then Some ([], cs)
      else if c = backslash then
        (case unescape cs of
           None \<Rightarrow> None
         | Some (x, n) \<Rightarrow> map_option (apfst ((#) x)) (parse_chars (drop n cs)))
      else if (of_char c :: nat) < 32 then None
      else map_option (apfst ((#) c)) (parse_chars cs))"
  by pat_completeness auto
termination
  by (relation "measure length") auto

definition lex_digits :: "string \<Rightarrow> (string \<times> string) option" where
  "lex_digits s =
     (if takeWhile is_digit s = [] then None else Some (takeWhile is_digit s, dropWhile is_digit s))"

definition lex_int :: "string \<Rightarrow> (string \<times> string) option" where
  "lex_int s =
     (case s of
        [] \<Rightarrow> None
      | c # cs \<Rightarrow>
          if c = CHR ''0'' then Some ([c], cs)
          else if is_digit c then Some (c # takeWhile is_digit cs, dropWhile is_digit cs)
          else None)"

definition lex_frac :: "string \<Rightarrow> (string \<times> string) option" where
  "lex_frac s =
     (case s of
        [] \<Rightarrow> Some ([], s)
      | c # cs \<Rightarrow>
          if c = CHR ''.'' then map_option (apfst ((#) c)) (lex_digits cs)
          else Some ([], s))"

definition lex_exp :: "string \<Rightarrow> (string \<times> string) option" where
  "lex_exp s =
     (case s of
        [] \<Rightarrow> Some ([], s)
      | c # cs \<Rightarrow>
          if c = CHR ''e'' \<or> c = CHR ''E'' then
            (case cs of
               [] \<Rightarrow> None
             | g # ds \<Rightarrow>
                 if g = CHR ''+'' \<or> g = CHR ''-'' then map_option (apfst (\<lambda>d. c # g # d)) (lex_digits ds)
                 else map_option (apfst ((#) c)) (lex_digits cs))
          else Some ([], s))"

definition lex_sign :: "string \<Rightarrow> string \<times> string" where
  "lex_sign s = (case s of [] \<Rightarrow> ([], s) | c # cs \<Rightarrow> if c = CHR ''-'' then ([c], cs) else ([], s))"

definition lex_number :: "string \<Rightarrow> (string \<times> string) option" where
  "lex_number s =
     (case lex_int (snd (lex_sign s)) of
        None \<Rightarrow> None
      | Some (i, s2) \<Rightarrow>
          (case lex_frac s2 of
             None \<Rightarrow> None
           | Some (f, s3) \<Rightarrow>
               (case lex_exp s3 of
                  None \<Rightarrow> None
                | Some (e, s4) \<Rightarrow> Some (fst (lex_sign s) @ i @ f @ e, s4))))"

text \<open>
  \<open>JSON.parse\<close> builds an object member by member with \<open>CreateDataProperty\<close>. A key
  that is present keeps its place and takes the new value. A new key that is an array
  index (a canonical numeric string below \<open>2^32 - 1\<close>, \<open>is_array_index\<close>) goes among the
  array indices in ascending order; \<open>index_less\<close> compares two array indices by length and
  then digit by digit. Any other new key goes last. This is the order in which
  \<open>Object.entries\<close> and \<open>JSON.stringify\<close> enumerate the properties.
\<close>

definition is_array_index :: "string \<Rightarrow> bool" where
  "is_array_index k \<longleftrightarrow>
     k \<noteq> [] \<and> list_all is_digit k \<and> (k = ''0'' \<or> hd k \<noteq> CHR ''0'')
     \<and> (length k < 10 \<or> (length k = 10 \<and> ord_class.lexordp k ''4294967295''))"

definition index_less :: "string \<Rightarrow> string \<Rightarrow> bool" where
  "index_less k k' \<longleftrightarrow> length k < length k' \<or> (length k = length k' \<and> ord_class.lexordp k k')"

fun insert_index :: "string \<Rightarrow> JsonValue \<Rightarrow> (string \<times> JsonValue) list \<Rightarrow> (string \<times> JsonValue) list" where
  "insert_index k v [] = [(k, v)]"
| "insert_index k v (p # rest) =
     (if is_array_index (fst p) \<and> index_less (fst p) k then p # insert_index k v rest
      else (k, v) # p # rest)"

definition CreateDataProperty :: "(string \<times> JsonValue) list \<Rightarrow> string \<Rightarrow> JsonValue \<Rightarrow> (string \<times> JsonValue) list" where
  "CreateDataProperty obj k v =
     (if k \<in> set (map fst obj) then AList.update k v obj
      else if is_array_index k then insert_index k v obj
      else obj @ [(k, v)])"

text \<open>
  \<open>parse_value\<close> reads one value, \<open>parse_elements\<close> what follows \<open>[\<close> and
  \<open>parse_members\<close> what follows \<open>{\<close>; each returns the value and the rest of the text,
  or \<open>None\<close> for a syntax error. The conversion of a number literal to a number is
  floating-point arithmetic and is the parameter \<open>num\<close>: it gives the number that the
  literal denotes. The depth of the recursion is bounded by \<open>fuel\<close>; \<open>JSON_parse\<close> gives
  twice the length of the text plus two, and no run needs more.
\<close>

function (sequential) parse_value :: "(string \<Rightarrow> JsonNumber) \<Rightarrow> nat \<Rightarrow> string \<Rightarrow> (JsonValue \<times> string) option"
  and parse_elements ::
    "(string \<Rightarrow> JsonNumber) \<Rightarrow> nat \<Rightarrow> string \<Rightarrow> JsonValue list \<Rightarrow> (JsonValue \<times> string) option"
  and parse_members ::
    "(string \<Rightarrow> JsonNumber) \<Rightarrow> nat \<Rightarrow> string \<Rightarrow> (string \<times> JsonValue) list \<Rightarrow> (JsonValue \<times> string) option"
where
  "parse_value num 0 s = None"
| "parse_value num (Suc fuel) s =
     (case s of
        [] \<Rightarrow> None
      | c # cs \<Rightarrow>
          if c = CHR ''{'' then
            (case skip_ws cs of
               [] \<Rightarrow> None
             | c' # r \<Rightarrow> if c' = CHR ''}'' then Some (JObject [], r) else parse_members num fuel (c' # r) [])
          else if c = CHR ''['' then
            (case skip_ws cs of
               [] \<Rightarrow> None
             | c' # r \<Rightarrow> if c' = CHR '']'' then Some (JArray [], r) else parse_elements num fuel (c' # r) [])
          else if c = dquote then map_option (apfst JString) (parse_chars cs)
          else if prefix ''true'' s then Some (JBoolean True, drop 4 s)
          else if prefix ''false'' s then Some (JBoolean False, drop 5 s)
          else if prefix ''null'' s then Some (JNull, drop 4 s)
          else map_option (apfst (\<lambda>lit. JNumber (num lit))) (lex_number s))"
| "parse_elements num 0 s acc = None"
| "parse_elements num (Suc fuel) s acc =
     (case parse_value num fuel s of
        None \<Rightarrow> None
      | Some (v, r) \<Rightarrow>
          (case skip_ws r of
             [] \<Rightarrow> None
           | c # r' \<Rightarrow>
               if c = CHR '','' then parse_elements num fuel (skip_ws r') (acc @ [v])
               else if c = CHR '']'' then Some (JArray (acc @ [v]), r')
               else None))"
| "parse_members num 0 s acc = None"
| "parse_members num (Suc fuel) s acc =
     (case s of
        [] \<Rightarrow> None
      | c # cs \<Rightarrow>
          if c = dquote then
            (case parse_chars cs of
               None \<Rightarrow> None
             | Some (k, r) \<Rightarrow>
                 (case skip_ws r of
                    [] \<Rightarrow> None
                  | c1 # r1 \<Rightarrow>
                      if c1 = CHR '':'' then
                        (case parse_value num fuel (skip_ws r1) of
                           None \<Rightarrow> None
                         | Some (v, r2) \<Rightarrow>
                             (case skip_ws r2 of
                                [] \<Rightarrow> None
                              | c2 # r3 \<Rightarrow>
                                  if c2 = CHR '','' then
                                    parse_members num fuel (skip_ws r3) (CreateDataProperty acc k v)
                                  else if c2 = CHR ''}'' then Some (JObject (CreateDataProperty acc k v), r3)
                                  else None))
                      else None))
          else None)"
  by pat_completeness auto
termination
  by (relation "measure (\<lambda>x. case x of
          Inl (_, fuel, _) \<Rightarrow> fuel
        | Inr (Inl (_, fuel, _)) \<Rightarrow> fuel
        | Inr (Inr (_, fuel, _)) \<Rightarrow> fuel)") auto

declare parse_value.simps [simp del] parse_elements.simps [simp del] parse_members.simps [simp del]

definition JSON_parse :: "(string \<Rightarrow> JsonNumber) \<Rightarrow> string \<Rightarrow> js_exception + JsonValue" where
  "JSON_parse num text =
     (case parse_value num (2 * length text + 2) (skip_ws text) of
        None \<Rightarrow> Inl (SyntaxError ''Unexpected token'')
      | Some (v, r) \<Rightarrow> if skip_ws r = [] then Inr v else Inl (SyntaxError ''Unexpected token''))"


















section \<open>Path Formatter: proofs\<close>

lemma replaceAll_escape:
  "replaceAll (replaceAll k backslash [backslash, backslash]) dquote [backslash, dquote] = escape_key k"
  by (induction k) (auto simp: replaceAll_def escape_key_def dquote_def backslash_def)

lemma path_step_piece: "path_step p s = p @ spec_piece s"
  by (cases s) (simp_all add: path_step_def spec_piece_def replaceAll_escape)

lemma foldl_path_step: "foldl path_step p ss = p @ concat (map spec_piece ss)"
  by (induction ss arbitrary: p) (simp_all add: path_step_piece)


lemma pathText_snoc: "pathTextFromSegments (segs @ [s]) = pathTextFromSegments segs @ spec_piece s"
  by (simp add: pathTextFromSegments_def foldl_path_step path_step_piece)

text \<open>
  C5. The Path Formatter is total (a HOL function) and pure. The empty sequence yields
  \<open>$\<close>; a numeric segment appends \<open>[N]\<close>; a key matching the identifier pattern
  appends \<open>.key\<close>; any other key appends the bracketed, double-quoted key in which
  every backslash and every double quote is preceded by a backslash (\<open>escape_key\<close>).
  Segments are processed left to right, so the text is \<open>$\<close> followed by one piece per
  segment (\<open>spec_path\<close>).
\<close>

theorem pathTextFromSegments_rule:
  "pathTextFromSegments [] = ''$''
   \<and> pathTextFromSegments (segs @ [Index n]) = pathTextFromSegments segs @ ''['' @ decimal n @ '']''
   \<and> (IDENTIFIER_RE_test k \<longrightarrow>
        pathTextFromSegments (segs @ [Key k]) = pathTextFromSegments segs @ ''.'' @ k)
   \<and> (\<not> IDENTIFIER_RE_test k \<longrightarrow>
        pathTextFromSegments (segs @ [Key k])
          = pathTextFromSegments segs @ [CHR ''['', dquote] @ escape_key k @ [dquote, CHR '']''])
   \<and> pathTextFromSegments segs = spec_path segs"
  by (simp add: pathText_snoc spec_piece_def)
     (simp add: pathTextFromSegments_def foldl_path_step spec_path_def)

theorem pathTextFromSegments_rule_witness:
  "pathTextFromSegments [Key ''a'', Index 3] = ''$.a[3]''
   \<and> pathTextFromSegments [Key ''a'', Key ''b''] = ''$.a.b''
   \<and> pathTextFromSegments [Key ''a b''] = ''$['' @ [dquote] @ ''a b'' @ [dquote] @ '']''"
proof -
  have h1: "IDENTIFIER_RE_test ''b''" by code_simp
  have h2: "\<not> IDENTIFIER_RE_test ''a b''" by code_simp
  have e1: "pathTextFromSegments [Key ''a''] = ''$.a''" by code_simp
  have e2: "escape_key ''a b'' = ''a b''" by code_simp
  have e3: "decimal 3 = ''3''" by code_simp
  from pathTextFromSegments_rule [of "[Key ''a'']" 3 "''b''"]
       pathTextFromSegments_rule [of "[]" 0 "''a b''"] h1 h2
  show ?thesis by (simp add: e1 e2 e3)
qed

section \<open>Identifiers are distinct\<close>

lemma digit_char_code: "d < 10 \<Longrightarrow> (of_char (digit_char d) :: nat) = 48 + d"
  unfolding digit_char_def of_char_of by (simp only: mod_less)

lemma digit_char_inj:
  assumes "d < 10" and "e < 10" and "digit_char d = digit_char e"
  shows "d = e"
proof -
  have "(of_char (digit_char d) :: nat) = of_char (digit_char e)"
    by (simp only: assms(3))
  then have "48 + d = 48 + e"
    by (simp only: digit_char_code [OF assms(1)] digit_char_code [OF assms(2)])
  then show ?thesis by (simp only: add_left_cancel)
qed

lemma decimal_nonempty: "decimal n \<noteq> []"
  by (subst decimal.simps) simp


lemma decimal_inj: "decimal n = decimal m \<Longrightarrow> n = m"
proof (induction n arbitrary: m rule: decimal.induct)
  case (1 n)
  show ?case
  proof (cases "n < 10")
    case True
    then have n1: "decimal n = [digit_char n]"
      by (subst decimal.simps) simp
    show ?thesis
    proof (cases "m < 10")
      case True
      then have "decimal m = [digit_char m]"
        by (subst decimal.simps) simp
      with n1 "1.prems" have "digit_char n = digit_char m" by simp
      with \<open>n < 10\<close> True show ?thesis by (rule digit_char_inj)
    next
      case False
      then have "decimal m = decimal (m div 10) @ [digit_char (m mod 10)]"
        by (subst decimal.simps) simp
      with n1 "1.prems" decimal_nonempty [of "m div 10"] show ?thesis by simp
    qed
  next
    case False
    then have n2: "decimal n = decimal (n div 10) @ [digit_char (n mod 10)]"
      by (subst decimal.simps) simp
    show ?thesis
    proof (cases "m < 10")
      case True
      then have "decimal m = [digit_char m]"
        by (subst decimal.simps) simp
      with n2 "1.prems" decimal_nonempty [of "n div 10"] show ?thesis by simp
    next
      case m: False
      then have "decimal m = decimal (m div 10) @ [digit_char (m mod 10)]"
        by (subst decimal.simps) simp
      with n2 "1.prems" have eq: "decimal (n div 10) = decimal (m div 10)"
        and dg: "digit_char (n mod 10) = digit_char (m mod 10)"
        by simp_all
      from "1.IH" [OF False eq] have "n div 10 = m div 10" .
      moreover have "n mod 10 = m mod 10"
        by (rule digit_char_inj [OF _ _ dg]) simp_all
      ultimately show ?thesis
        by (metis div_mult_mod_eq)
    qed
  qed
qed


lemma nodeId_inj [simp]: "nodeId a = nodeId b \<longleftrightarrow> a = b"
  by (auto simp: nodeId_def dest: decimal_inj)

lemma update_fresh: "k \<notin> fst ` set al \<Longrightarrow> AList.update k v al = al @ [(k, v)]"
  by (induction al) auto

lemma map_entry_absent: "k \<notin> fst ` set al \<Longrightarrow> AList.map_entry k f al = al"
  by (induction al) auto

lemma map_entry_append_present:
  "k \<in> fst ` set al \<Longrightarrow> AList.map_entry k f (al @ bl) = AList.map_entry k f al @ bl"
  by (induction al) auto

lemma map_entry_append_absent:
  "k \<notin> fst ` set al \<Longrightarrow> AList.map_entry k f (al @ bl) = al @ AList.map_entry k f bl"
  by (induction al) auto

lemma map_entry_twice: "AList.map_entry k f (AList.map_entry k g al) = AList.map_entry k (f \<circ> g) al"
  by (induction al) auto

lemma map_entry_keys [simp]: "map fst (AList.map_entry k f al) = map fst al"
  by (induction al) auto


section \<open>The indexer computes the pre-order listing\<close>

lemma upt_step: "[s..<s + (1 + n)] = s # [s + 1..<s + 1 + n]" for s n :: nat
  by (simp add: upt_conv_Cons)

lemma upt_split: "[s..<s + (a + b)] = [s..<s + a] @ [s + a..<s + a + b]" for s a b :: nat
  using upt_add_eq_append [of s "s + a" b] by (simp only: add.assoc le_add1)

lemma keys_flat:
  "\<forall>segs dkey parent d s. map fst (flat v segs dkey parent d s) = map nodeId [s..<s + count v]"
  "\<forall>segs pid d s. map fst (flat_entries es segs pid d s) = map nodeId [s..<s + count_entries es]"
  "\<forall>i segs pid d s. map fst (flat_items xs i segs pid d s) = map nodeId [s..<s + count_items xs]"
proof (induction v and es and xs rule: count_count_entries_count_items.induct)
  case (5 arr)
  show ?case
  proof (intro allI)
    fix segs dkey parent d s
    have "map fst (flat (JArray arr) segs dkey parent d s)
        = nodeId s # map fst (flat_items arr 0 segs (nodeId s) d (s + 1))"
      by (simp add: flat_head_def)
    also have "\<dots> = nodeId s # map nodeId [s + 1..<s + 1 + count_items arr]"
      using 5 by simp
    also have "\<dots> = map nodeId [s..<s + count (JArray arr)]"
      by (simp only: count.simps upt_step list.map)
    finally show "map fst (flat (JArray arr) segs dkey parent d s) = map nodeId [s..<s + count (JArray arr)]" .
  qed
next
  case (6 obj)
  show ?case
  proof (intro allI)
    fix segs dkey parent d s
    have "map fst (flat (JObject obj) segs dkey parent d s)
        = nodeId s # map fst (flat_entries obj segs (nodeId s) d (s + 1))"
      by (simp add: flat_head_def)
    also have "\<dots> = nodeId s # map nodeId [s + 1..<s + 1 + count_entries obj]"
      using 6 by simp
    also have "\<dots> = map nodeId [s..<s + count (JObject obj)]"
      by (simp only: count.simps upt_step list.map)
    finally show "map fst (flat (JObject obj) segs dkey parent d s) = map nodeId [s..<s + count (JObject obj)]" .
  qed
next
  case (8 k c rest)
  then show ?case
    by (simp add: upt_split)
next
  case (10 c rest)
  then show ?case
    by (simp add: upt_split)
qed (simp_all add: flat_head_def)

lemma fresh_not_in: "fresh ns s \<Longrightarrow> nodeId s \<notin> fst ` set ns"
  by (auto simp: fresh_def)

lemma fresh_append:
  "fresh ns s \<Longrightarrow> map fst ms = map nodeId [s..<s + n] \<Longrightarrow> fresh (ns @ ms) (s + n)"
proof -
  assume a: "fresh ns s" and b: "map fst ms = map nodeId [s..<s + n]"
  have "fst ` set ms = set (map fst ms)" by simp
  also have "\<dots> = nodeId ` {s..<s + n}" by (simp add: b)
  finally have "fst ` set ms = nodeId ` {s..<s + n}" .
  with a show ?thesis
    by (fastforce simp: fresh_def image_Un)
qed

lemma map_entry_dom: "fst ` set (AList.map_entry k f al) = fst ` set al"
  by (induction al) auto

lemma fresh_map_entry: "fresh (AList.map_entry k f ns) s = fresh ns s"
  by (simp add: fresh_def map_entry_dom)

lemma add_kids_push:
  "add_kids ks \<circ> (\<lambda>n. n\<lparr>childrenIds := childrenIds n @ [c]\<rparr>) = add_kids (c # ks)"
  by (rule ext) (simp add: add_kids_def)

lemma map_entry_ident: "AList.map_entry k (\<lambda>n. n) al = al"
  by (induction al) auto

lemma add_kids_Nil: "add_kids [] = (\<lambda>n. n)"
  by (rule ext) (simp add: add_kids_def)

lemma make_node_children [simp]: "childrenIds (make_node i v segs dkey parent d) = []"
  by (simp only: make_node_def Let_def TreeNode.select_convs)


lemma build_JObject:
  "build (JObject obj) segs dkey parent d \<lparr>bs_nodes = ns, bs_sequence = s\<rparr>
     = (nodeId s, build_entries obj segs (nodeId s) d
          \<lparr>bs_nodes = AList.update (nodeId s) (make_node (nodeId s) (JObject obj) segs dkey parent d) ns,
           bs_sequence = s + 1\<rparr>)"
  by (subst build.simps) (simp add: Let_def)

lemma build_JArray:
  "build (JArray arr) segs dkey parent d \<lparr>bs_nodes = ns, bs_sequence = s\<rparr>
     = (nodeId s, build_items arr 0 segs (nodeId s) d
          \<lparr>bs_nodes = AList.update (nodeId s) (make_node (nodeId s) (JArray arr) segs dkey parent d) ns,
           bs_sequence = s + 1\<rparr>)"
  by (subst build.simps) (simp add: Let_def)

lemma build_scalar:
  "determineKind v \<noteq> KObject \<Longrightarrow> determineKind v \<noteq> KArray \<Longrightarrow>
   build v segs dkey parent d \<lparr>bs_nodes = ns, bs_sequence = s\<rparr>
     = (nodeId s, \<lparr>bs_nodes = AList.update (nodeId s) (make_node (nodeId s) v segs dkey parent d) ns,
           bs_sequence = s + 1\<rparr>)"
  by (subst build.simps) (cases v; simp add: Let_def)

lemma flat_scalar:
  "determineKind v \<noteq> KObject \<Longrightarrow> determineKind v \<noteq> KArray \<Longrightarrow>
   flat v segs dkey parent d s = [(nodeId s, make_node (nodeId s) v segs dkey parent d)]"
  by (cases v; simp add: flat_head_def kid_ids_def)

lemma build_scalar_flat:
  assumes "determineKind v \<noteq> KObject" "determineKind v \<noteq> KArray" "fresh ns s"
  shows "build v segs dkey parent d \<lparr>bs_nodes = ns, bs_sequence = s\<rparr>
     = (nodeId s, \<lparr>bs_nodes = ns @ flat v segs dkey parent d s, bs_sequence = s + 1\<rparr>)"
  using assms by (simp add: build_scalar flat_scalar update_fresh fresh_not_in)


lemma build_flat:
  "\<forall>segs dkey parent d ns s. fresh ns s \<longrightarrow>
     build v segs dkey parent d \<lparr>bs_nodes = ns, bs_sequence = s\<rparr>
       = (nodeId s, \<lparr>bs_nodes = ns @ flat v segs dkey parent d s, bs_sequence = s + count v\<rparr>)"
  "\<forall>segs pid d ns s. fresh ns s \<and> pid \<in> fst ` set ns \<longrightarrow>
     build_entries es segs pid d \<lparr>bs_nodes = ns, bs_sequence = s\<rparr>
       = \<lparr>bs_nodes = AList.map_entry pid (add_kids (map nodeId (kid_seqs (map snd es) s))) ns
                     @ flat_entries es segs pid d s,
          bs_sequence = s + count_entries es\<rparr>"
  "\<forall>i segs pid d ns s. fresh ns s \<and> pid \<in> fst ` set ns \<longrightarrow>
     build_items xs i segs pid d \<lparr>bs_nodes = ns, bs_sequence = s\<rparr>
       = \<lparr>bs_nodes = AList.map_entry pid (add_kids (map nodeId (kid_seqs xs s))) ns
                     @ flat_items xs i segs pid d s,
          bs_sequence = s + count_items xs\<rparr>"
proof (induction v and es and xs rule: count_count_entries_count_items.induct)
  case 1
  show ?case by (simp add: build_scalar_flat)
next
  case (2 b)
  show ?case by (simp add: build_scalar_flat)
next
  case (3 n)
  show ?case by (simp add: build_scalar_flat)
next
  case (4 s)
  show ?case by (simp add: build_scalar_flat)
next
  case (5 arr)
  show ?case
  proof (intro allI impI)
    fix segs dkey parent d ns s
    assume fr: "fresh ns s"
    let ?node = "make_node (nodeId s) (JArray arr) segs dkey parent d"
    let ?ns = "ns @ [(nodeId s, ?node)]"
    have upd: "AList.update (nodeId s) ?node ns = ?ns"
      using fr by (simp add: update_fresh fresh_not_in)
    have fr': "fresh ?ns (s + 1)"
      using fresh_append [OF fr, of "[(nodeId s, ?node)]" 1] by simp
    have mem: "nodeId s \<in> fst ` set ?ns" by simp
    have ih: "build_items arr 0 segs (nodeId s) d \<lparr>bs_nodes = ?ns, bs_sequence = s + 1\<rparr>
       = \<lparr>bs_nodes = AList.map_entry (nodeId s) (add_kids (map nodeId (kid_seqs arr (s + 1)))) ?ns
                     @ flat_items arr 0 segs (nodeId s) d (s + 1),
          bs_sequence = s + 1 + count_items arr\<rparr>"
      using 5 fr' mem by blast
    have me: "AList.map_entry (nodeId s) (add_kids (map nodeId (kid_seqs arr (s + 1)))) ?ns
        = ns @ [flat_head (JArray arr) segs dkey parent d s]"
      using fr by (simp add: map_entry_append_absent fresh_not_in flat_head_def add_kids_def kid_ids_def)
    show "build (JArray arr) segs dkey parent d \<lparr>bs_nodes = ns, bs_sequence = s\<rparr>
       = (nodeId s, \<lparr>bs_nodes = ns @ flat (JArray arr) segs dkey parent d s,
                     bs_sequence = s + count (JArray arr)\<rparr>)"
      using ih me by (simp add: build_JArray upd)
  qed
next
  case (6 obj)
  show ?case
  proof (intro allI impI)
    fix segs dkey parent d ns s
    assume fr: "fresh ns s"
    let ?node = "make_node (nodeId s) (JObject obj) segs dkey parent d"
    let ?ns = "ns @ [(nodeId s, ?node)]"
    have upd: "AList.update (nodeId s) ?node ns = ?ns"
      using fr by (simp add: update_fresh fresh_not_in)
    have fr': "fresh ?ns (s + 1)"
      using fresh_append [OF fr, of "[(nodeId s, ?node)]" 1] by simp
    have mem: "nodeId s \<in> fst ` set ?ns" by simp
    have ih: "build_entries obj segs (nodeId s) d \<lparr>bs_nodes = ?ns, bs_sequence = s + 1\<rparr>
       = \<lparr>bs_nodes = AList.map_entry (nodeId s) (add_kids (map nodeId (kid_seqs (map snd obj) (s + 1)))) ?ns
                     @ flat_entries obj segs (nodeId s) d (s + 1),
          bs_sequence = s + 1 + count_entries obj\<rparr>"
      using 6 fr' mem by blast
    have me: "AList.map_entry (nodeId s) (add_kids (map nodeId (kid_seqs (map snd obj) (s + 1)))) ?ns
        = ns @ [flat_head (JObject obj) segs dkey parent d s]"
      using fr by (simp add: map_entry_append_absent fresh_not_in flat_head_def add_kids_def kid_ids_def)
    show "build (JObject obj) segs dkey parent d \<lparr>bs_nodes = ns, bs_sequence = s\<rparr>
       = (nodeId s, \<lparr>bs_nodes = ns @ flat (JObject obj) segs dkey parent d s,
                     bs_sequence = s + count (JObject obj)\<rparr>)"
      using ih me by (simp add: build_JObject upd)
  qed
next
  case 7
  show ?case by (simp add: add_kids_Nil map_entry_ident)
next
  case (8 k c rest)
  show ?case
  proof (intro allI impI)
    fix segs pid d ns s
    assume a: "fresh ns s \<and> pid \<in> fst ` set ns"
    then have fr: "fresh ns s" and mem: "pid \<in> fst ` set ns" by simp_all
    let ?fc = "flat c (segs @ [Key k]) (Some k) (Some pid) (d + 1) s"
    let ?push = "\<lambda>n. n\<lparr>childrenIds := childrenIds n @ [nodeId s]\<rparr>"
    let ?ns = "AList.map_entry pid ?push ns @ ?fc"
    have b: "build c (segs @ [Key k]) (Some k) (Some pid) (d + 1) \<lparr>bs_nodes = ns, bs_sequence = s\<rparr>
        = (nodeId s, \<lparr>bs_nodes = ns @ ?fc, bs_sequence = s + count c\<rparr>)"
      using "8.IH"(1) fr by blast
    have p: "push_child pid (nodeId s) \<lparr>bs_nodes = ns @ ?fc, bs_sequence = s + count c\<rparr>
        = \<lparr>bs_nodes = ?ns, bs_sequence = s + count c\<rparr>"
      using mem by (simp add: push_child_def map_entry_append_present)
    have fr': "fresh ?ns (s + count c)"
      using fresh_append [of "AList.map_entry pid ?push ns" s ?fc "count c"] fr keys_flat(1) [of c]
      by (simp add: fresh_map_entry)
    have mem': "pid \<in> fst ` set ?ns"
      using mem by (simp add: image_Un map_entry_dom)
    have ih: "build_entries rest segs pid d \<lparr>bs_nodes = ?ns, bs_sequence = s + count c\<rparr>
       = \<lparr>bs_nodes = AList.map_entry pid (add_kids (map nodeId (kid_seqs (map snd rest) (s + count c)))) ?ns
                     @ flat_entries rest segs pid d (s + count c),
          bs_sequence = s + count c + count_entries rest\<rparr>"
      using "8.IH"(2) fr' mem' by blast
    have mem2: "pid \<in> fst ` set (AList.map_entry pid ?push ns)"
      using mem by (simp add: map_entry_dom)
    have me: "AList.map_entry pid (add_kids (map nodeId (kid_seqs (map snd rest) (s + count c)))) ?ns
        = AList.map_entry pid (add_kids (map nodeId (kid_seqs (map snd ((k, c) # rest)) s))) ns @ ?fc"
      using mem2 by (simp add: map_entry_append_present map_entry_twice add_kids_push)
    show "build_entries ((k, c) # rest) segs pid d \<lparr>bs_nodes = ns, bs_sequence = s\<rparr>
       = \<lparr>bs_nodes = AList.map_entry pid (add_kids (map nodeId (kid_seqs (map snd ((k, c) # rest)) s))) ns
                     @ flat_entries ((k, c) # rest) segs pid d s,
          bs_sequence = s + count_entries ((k, c) # rest)\<rparr>"
      using b p ih me by (simp add: add.assoc)
  qed
next
  case 9
  show ?case by (simp add: add_kids_Nil map_entry_ident)
next
  case (10 c rest)
  show ?case
  proof (intro allI impI)
    fix i segs pid d ns s
    assume a: "fresh ns s \<and> pid \<in> fst ` set ns"
    then have fr: "fresh ns s" and mem: "pid \<in> fst ` set ns" by simp_all
    let ?fc = "flat c (segs @ [Index i]) (Some (decimal i)) (Some pid) (d + 1) s"
    let ?push = "\<lambda>n. n\<lparr>childrenIds := childrenIds n @ [nodeId s]\<rparr>"
    let ?ns = "AList.map_entry pid ?push ns @ ?fc"
    have b: "build c (segs @ [Index i]) (Some (decimal i)) (Some pid) (d + 1) \<lparr>bs_nodes = ns, bs_sequence = s\<rparr>
        = (nodeId s, \<lparr>bs_nodes = ns @ ?fc, bs_sequence = s + count c\<rparr>)"
      using "10.IH"(1) fr by blast
    have p: "push_child pid (nodeId s) \<lparr>bs_nodes = ns @ ?fc, bs_sequence = s + count c\<rparr>
        = \<lparr>bs_nodes = ?ns, bs_sequence = s + count c\<rparr>"
      using mem by (simp add: push_child_def map_entry_append_present)
    have fr': "fresh ?ns (s + count c)"
      using fresh_append [of "AList.map_entry pid ?push ns" s ?fc "count c"] fr keys_flat(1) [of c]
      by (simp add: fresh_map_entry)
    have mem': "pid \<in> fst ` set ?ns"
      using mem by (simp add: image_Un map_entry_dom)
    have ih: "build_items rest (i + 1) segs pid d \<lparr>bs_nodes = ?ns, bs_sequence = s + count c\<rparr>
       = \<lparr>bs_nodes = AList.map_entry pid (add_kids (map nodeId (kid_seqs rest (s + count c)))) ?ns
                     @ flat_items rest (i + 1) segs pid d (s + count c),
          bs_sequence = s + count c + count_items rest\<rparr>"
      using "10.IH"(2) fr' mem' by blast
    have mem2: "pid \<in> fst ` set (AList.map_entry pid ?push ns)"
      using mem by (simp add: map_entry_dom)
    have me: "AList.map_entry pid (add_kids (map nodeId (kid_seqs rest (s + count c)))) ?ns
        = AList.map_entry pid (add_kids (map nodeId (kid_seqs (c # rest) s))) ns @ ?fc"
      using mem2 by (simp add: map_entry_append_present map_entry_twice add_kids_push)
    show "build_items (c # rest) i segs pid d \<lparr>bs_nodes = ns, bs_sequence = s\<rparr>
       = \<lparr>bs_nodes = AList.map_entry pid (add_kids (map nodeId (kid_seqs (c # rest) s))) ns
                     @ flat_items (c # rest) i segs pid d s,
          bs_sequence = s + count_items (c # rest)\<rparr>"
      using b p ih me by (simp add: add.assoc)
  qed
qed


lemma buildTree_flat:
  "buildTree v = \<lparr>nodes = flat v [] None None 0 0, rootIds = [nodeId 0]\<rparr>"
proof -
  have "fresh [] 0" by (simp add: fresh_def)
  with build_flat(1) [of v]
  have "build v [] None None 0 \<lparr>bs_nodes = [], bs_sequence = 0\<rparr>
      = (nodeId 0, \<lparr>bs_nodes = [] @ flat v [] None None 0 0, bs_sequence = 0 + count v\<rparr>)"
    by blast
  then show ?thesis by (simp add: buildTree_def)
qed

section \<open>Structure of the pre-order listing\<close>

lemma make_node_sel [simp]:
  "node_id (make_node i v segs dkey parent d) = i"
  "displayKey (make_node i v segs dkey parent d) = dkey"
  "node_value (make_node i v segs dkey parent d) = v"
  "kind (make_node i v segs dkey parent d) = determineKind v"
  "depth (make_node i v segs dkey parent d) = d"
  "pathSegments (make_node i v segs dkey parent d) = segs"
  "pathText (make_node i v segs dkey parent d) = pathTextFromSegments segs"
  "parentId (make_node i v segs dkey parent d) = parent"
  "hasChildren (make_node i v segs dkey parent d) = (determineKind v = KObject \<or> determineKind v = KArray)"
  "summary (make_node i v segs dkey parent d) = summary_of (determineKind v) v"
  by (simp_all only: make_node_def Let_def TreeNode.select_convs)

lemma count_entries_items: "count_entries es = count_items (map snd es)"
  by (induction es) auto

lemma kid_seqs_range: "k \<in> set (kid_seqs xs s) \<Longrightarrow> s \<le> k \<and> k < s + count_items xs"
proof (induction xs arbitrary: s)
  case Nil
  then show ?case by simp
next
  case (Cons c rest)
  have pos: "0 < count c" by (cases c) simp_all
  from Cons.prems have "k = s \<or> k \<in> set (kid_seqs rest (s + count c))" by simp
  then show ?case
  proof
    assume "k = s"
    with pos show ?thesis by simp
  next
    assume "k \<in> set (kid_seqs rest (s + count c))"
    from Cons.IH [OF this] show ?thesis by simp
  qed
qed

lemma kid_ids_range:
  "c \<in> set (kid_ids v (s + 1)) \<Longrightarrow> \<exists>b. c = nodeId b \<and> s < b \<and> b < s + count v"
proof (cases v)
  case (JArray arr)
  assume "c \<in> set (kid_ids v (s + 1))"
  with JArray obtain k where "c = nodeId k" "k \<in> set (kid_seqs arr (s + 1))"
    by (auto simp: kid_ids_def)
  with kid_seqs_range [of k arr "s + 1"] JArray show ?thesis
    by (intro exI [of _ k]) simp
next
  case (JObject obj)
  assume "c \<in> set (kid_ids v (s + 1))"
  with JObject obtain k where "c = nodeId k" "k \<in> set (kid_seqs (map snd obj) (s + 1))"
    by (auto simp: kid_ids_def)
  with kid_seqs_range [of k "map snd obj" "s + 1"] JObject show ?thesis
    by (intro exI [of _ k]) (simp add: count_entries_items)
qed (simp_all add: kid_ids_def)


lemma flat_head_kids:
  "c \<in> set (childrenIds (snd (flat_head v segs dkey parent d s))) \<Longrightarrow>
   \<exists>b. c = nodeId b \<and> s < b \<and> b < s + count v"
  by (rule kid_ids_range) (simp add: flat_head_def)

lemma fst_flat_head [simp]: "fst (flat_head v segs dkey parent d s) = nodeId s"
  by (simp add: flat_head_def)

lemma children_later:
  "\<forall>segs dkey parent d s i n c.
     (i, n) \<in> set (flat v segs dkey parent d s) \<and> c \<in> set (childrenIds n) \<longrightarrow>
     (\<exists>a b. i = nodeId a \<and> c = nodeId b \<and> a < b \<and> b < s + count v)"
  "\<forall>segs pid d s i n c.
     (i, n) \<in> set (flat_entries es segs pid d s) \<and> c \<in> set (childrenIds n) \<longrightarrow>
     (\<exists>a b. i = nodeId a \<and> c = nodeId b \<and> a < b \<and> b < s + count_entries es)"
  "\<forall>j segs pid d s i n c.
     (i, n) \<in> set (flat_items xs j segs pid d s) \<and> c \<in> set (childrenIds n) \<longrightarrow>
     (\<exists>a b. i = nodeId a \<and> c = nodeId b \<and> a < b \<and> b < s + count_items xs)"
proof (induction v and es and xs rule: count_count_entries_count_items.induct)
  case 1
  show ?case by (simp add: flat_head_def kid_ids_def)
next
  case (2 b)
  show ?case by (simp add: flat_head_def kid_ids_def)
next
  case (3 n)
  show ?case by (simp add: flat_head_def kid_ids_def)
next
  case (4 s)
  show ?case by (simp add: flat_head_def kid_ids_def)
next
  case (5 arr)
  show ?case
  proof (intro allI impI, elim conjE)
    fix segs dkey parent d s i n c
    assume mem: "(i, n) \<in> set (flat (JArray arr) segs dkey parent d s)"
      and c: "c \<in> set (childrenIds n)"
    from mem have "(i, n) = flat_head (JArray arr) segs dkey parent d s
        \<or> (i, n) \<in> set (flat_items arr 0 segs (nodeId s) d (s + 1))"
      by simp
    then show "\<exists>a b. i = nodeId a \<and> c = nodeId b \<and> a < b \<and> b < s + count (JArray arr)"
    proof
      assume h: "(i, n) = flat_head (JArray arr) segs dkey parent d s"
      then have i: "i = nodeId s" by (metis fst_conv fst_flat_head)
      from h c have "c \<in> set (childrenIds (snd (flat_head (JArray arr) segs dkey parent d s)))"
        by (metis snd_conv)
      from flat_head_kids [OF this] i show ?thesis by blast
    next
      assume "(i, n) \<in> set (flat_items arr 0 segs (nodeId s) d (s + 1))"
      with 5 c obtain a b where "i = nodeId a" "c = nodeId b" "a < b" "b < s + 1 + count_items arr"
        by blast
      then show ?thesis by (intro exI [of _ a] exI [of _ b]) simp
    qed
  qed
next
  case (6 obj)
  show ?case
  proof (intro allI impI, elim conjE)
    fix segs dkey parent d s i n c
    assume mem: "(i, n) \<in> set (flat (JObject obj) segs dkey parent d s)"
      and c: "c \<in> set (childrenIds n)"
    from mem have "(i, n) = flat_head (JObject obj) segs dkey parent d s
        \<or> (i, n) \<in> set (flat_entries obj segs (nodeId s) d (s + 1))"
      by simp
    then show "\<exists>a b. i = nodeId a \<and> c = nodeId b \<and> a < b \<and> b < s + count (JObject obj)"
    proof
      assume h: "(i, n) = flat_head (JObject obj) segs dkey parent d s"
      then have i: "i = nodeId s" by (metis fst_conv fst_flat_head)
      from h c have "c \<in> set (childrenIds (snd (flat_head (JObject obj) segs dkey parent d s)))"
        by (metis snd_conv)
      from flat_head_kids [OF this] i show ?thesis by blast
    next
      assume "(i, n) \<in> set (flat_entries obj segs (nodeId s) d (s + 1))"
      with 6 c obtain a b where "i = nodeId a" "c = nodeId b" "a < b" "b < s + 1 + count_entries obj"
        by blast
      then show ?thesis by (intro exI [of _ a] exI [of _ b]) simp
    qed
  qed
next
  case 7
  show ?case by simp
next
  case (8 k ch rest)
  show ?case
  proof (intro allI impI, elim conjE)
    fix segs pid d s i n c
    assume mem: "(i, n) \<in> set (flat_entries ((k, ch) # rest) segs pid d s)"
      and c: "c \<in> set (childrenIds n)"
    from mem have "(i, n) \<in> set (flat ch (segs @ [Key k]) (Some k) (Some pid) (d + 1) s)
        \<or> (i, n) \<in> set (flat_entries rest segs pid d (s + count ch))"
      by simp
    then show "\<exists>a b. i = nodeId a \<and> c = nodeId b \<and> a < b \<and> b < s + count_entries ((k, ch) # rest)"
    proof
      assume "(i, n) \<in> set (flat ch (segs @ [Key k]) (Some k) (Some pid) (d + 1) s)"
      with "8.IH"(1) c obtain a b where "i = nodeId a" "c = nodeId b" "a < b" "b < s + count ch"
        by blast
      then show ?thesis by (intro exI [of _ a] exI [of _ b]) simp
    next
      assume "(i, n) \<in> set (flat_entries rest segs pid d (s + count ch))"
      with "8.IH"(2) c obtain a b where "i = nodeId a" "c = nodeId b" "a < b"
          "b < s + count ch + count_entries rest"
        by blast
      then show ?thesis by (intro exI [of _ a] exI [of _ b]) simp
    qed
  qed
next
  case 9
  show ?case by simp
next
  case (10 ch rest)
  show ?case
  proof (intro allI impI, elim conjE)
    fix j segs pid d s i n c
    assume mem: "(i, n) \<in> set (flat_items (ch # rest) j segs pid d s)"
      and c: "c \<in> set (childrenIds n)"
    from mem have "(i, n) \<in> set (flat ch (segs @ [Index j]) (Some (decimal j)) (Some pid) (d + 1) s)
        \<or> (i, n) \<in> set (flat_items rest (j + 1) segs pid d (s + count ch))"
      by simp
    then show "\<exists>a b. i = nodeId a \<and> c = nodeId b \<and> a < b \<and> b < s + count_items (ch # rest)"
    proof
      assume "(i, n) \<in> set (flat ch (segs @ [Index j]) (Some (decimal j)) (Some pid) (d + 1) s)"
      with "10.IH"(1) c obtain a b where "i = nodeId a" "c = nodeId b" "a < b" "b < s + count ch"
        by blast
      then show ?thesis by (intro exI [of _ a] exI [of _ b]) simp
    next
      assume "(i, n) \<in> set (flat_items rest (j + 1) segs pid d (s + count ch))"
      with "10.IH"(2) c obtain a b where "i = nodeId a" "c = nodeId b" "a < b"
          "b < s + count ch + count_items rest"
        by blast
      then show ?thesis by (intro exI [of _ a] exI [of _ b]) simp
    qed
  qed
qed


lemma flat_all:
  assumes hd: "\<And>v segs dkey parent d s. P (flat_head v segs dkey parent d s)"
  shows "\<forall>segs dkey parent d s. \<forall>x \<in> set (flat v segs dkey parent d s). P x"
    and "\<forall>segs pid d s. \<forall>x \<in> set (flat_entries es segs pid d s). P x"
    and "\<forall>j segs pid d s. \<forall>x \<in> set (flat_items xs j segs pid d s). P x"
proof (induction v and es and xs rule: count_count_entries_count_items.induct)
  case (5 arr)
  then show ?case by (simp add: hd)
next
  case (6 obj)
  then show ?case by (simp add: hd)
next
  case (8 k c rest)
  then show ?case by (simp add: ball_Un)
next
  case (10 c rest)
  then show ?case by (simp add: ball_Un)
qed (simp_all add: hd)

lemma parent_link:
  "\<forall>segs dkey parent d s i n.
     (i, n) \<in> set (flat v segs dkey parent d s) \<longrightarrow>
       (i = nodeId s \<and> parentId n = parent \<and> depth n = d)
     \<or> (\<exists>p pn. parentId n = Some p \<and> (p, pn) \<in> set (flat v segs dkey parent d s)
            \<and> depth n = depth pn + 1 \<and> i \<in> set (childrenIds pn))"
  "\<forall>segs pid d s i n.
     (i, n) \<in> set (flat_entries es segs pid d s) \<longrightarrow>
       (i \<in> nodeId ` set (kid_seqs (map snd es) s) \<and> parentId n = Some pid \<and> depth n = d + 1)
     \<or> (\<exists>p pn. parentId n = Some p \<and> (p, pn) \<in> set (flat_entries es segs pid d s)
            \<and> depth n = depth pn + 1 \<and> i \<in> set (childrenIds pn))"
  "\<forall>j segs pid d s i n.
     (i, n) \<in> set (flat_items xs j segs pid d s) \<longrightarrow>
       (i \<in> nodeId ` set (kid_seqs xs s) \<and> parentId n = Some pid \<and> depth n = d + 1)
     \<or> (\<exists>p pn. parentId n = Some p \<and> (p, pn) \<in> set (flat_items xs j segs pid d s)
            \<and> depth n = depth pn + 1 \<and> i \<in> set (childrenIds pn))"
proof (induction v and es and xs rule: count_count_entries_count_items.induct)
  case 1
  show ?case by (simp add: flat_head_def)
next
  case (2 b)
  show ?case by (simp add: flat_head_def)
next
  case (3 n)
  show ?case by (simp add: flat_head_def)
next
  case (4 s)
  show ?case by (simp add: flat_head_def)
next
  case (5 arr)
  show ?case
  proof (intro allI impI)
    fix segs dkey parent d s i n
    let ?h = "flat_head (JArray arr) segs dkey parent d s"
    let ?L = "flat (JArray arr) segs dkey parent d s"
    let ?K = "flat_items arr 0 segs (nodeId s) d (s + 1)"
    have L: "set ?L = insert ?h (set ?K)" by simp
    have hp: "(nodeId s, snd ?h) \<in> set ?L" by (simp add: flat_head_def)
    have hd: "depth (snd ?h) = d" "parentId (snd ?h) = parent"
      "childrenIds (snd ?h) = map nodeId (kid_seqs arr (s + 1))"
      by (simp_all add: flat_head_def kid_ids_def)
    assume "(i, n) \<in> set ?L"
    then have "(i, n) = ?h \<or> (i, n) \<in> set ?K" by (simp only: L insert_iff)
    then show "(i = nodeId s \<and> parentId n = parent \<and> depth n = d)
     \<or> (\<exists>p pn. parentId n = Some p \<and> (p, pn) \<in> set ?L
            \<and> depth n = depth pn + 1 \<and> i \<in> set (childrenIds pn))"
    proof
      assume "(i, n) = ?h"
      then have "i = nodeId s" "n = snd ?h" by (simp_all add: flat_head_def)
      with hd show ?thesis by simp
    next
      assume k: "(i, n) \<in> set ?K"
      with 5 have "(i \<in> nodeId ` set (kid_seqs arr (s + 1)) \<and> parentId n = Some (nodeId s) \<and> depth n = d + 1)
        \<or> (\<exists>p pn. parentId n = Some p \<and> (p, pn) \<in> set ?K
            \<and> depth n = depth pn + 1 \<and> i \<in> set (childrenIds pn))"
        by blast
      then show ?thesis
      proof
        assume a: "i \<in> nodeId ` set (kid_seqs arr (s + 1)) \<and> parentId n = Some (nodeId s) \<and> depth n = d + 1"
        have "parentId n = Some (nodeId s) \<and> (nodeId s, snd ?h) \<in> set ?L
            \<and> depth n = depth (snd ?h) + 1 \<and> i \<in> set (childrenIds (snd ?h))"
          using a hp hd by simp
        then show ?thesis by blast
      next
        assume "\<exists>p pn. parentId n = Some p \<and> (p, pn) \<in> set ?K
            \<and> depth n = depth pn + 1 \<and> i \<in> set (childrenIds pn)"
        then show ?thesis using L by blast
      qed
    qed
  qed
next
  case (6 obj)
  show ?case
  proof (intro allI impI)
    fix segs dkey parent d s i n
    let ?h = "flat_head (JObject obj) segs dkey parent d s"
    let ?L = "flat (JObject obj) segs dkey parent d s"
    let ?K = "flat_entries obj segs (nodeId s) d (s + 1)"
    have L: "set ?L = insert ?h (set ?K)" by simp
    have hp: "(nodeId s, snd ?h) \<in> set ?L" by (simp add: flat_head_def)
    have hd: "depth (snd ?h) = d" "parentId (snd ?h) = parent"
      "childrenIds (snd ?h) = map nodeId (kid_seqs (map snd obj) (s + 1))"
      by (simp_all add: flat_head_def kid_ids_def)
    assume "(i, n) \<in> set ?L"
    then have "(i, n) = ?h \<or> (i, n) \<in> set ?K" by (simp only: L insert_iff)
    then show "(i = nodeId s \<and> parentId n = parent \<and> depth n = d)
     \<or> (\<exists>p pn. parentId n = Some p \<and> (p, pn) \<in> set ?L
            \<and> depth n = depth pn + 1 \<and> i \<in> set (childrenIds pn))"
    proof
      assume "(i, n) = ?h"
      then have "i = nodeId s" "n = snd ?h" by (simp_all add: flat_head_def)
      with hd show ?thesis by simp
    next
      assume k: "(i, n) \<in> set ?K"
      with 6 have "(i \<in> nodeId ` set (kid_seqs (map snd obj) (s + 1)) \<and> parentId n = Some (nodeId s) \<and> depth n = d + 1)
        \<or> (\<exists>p pn. parentId n = Some p \<and> (p, pn) \<in> set ?K
            \<and> depth n = depth pn + 1 \<and> i \<in> set (childrenIds pn))"
        by blast
      then show ?thesis
      proof
        assume a: "i \<in> nodeId ` set (kid_seqs (map snd obj) (s + 1)) \<and> parentId n = Some (nodeId s) \<and> depth n = d + 1"
        have "parentId n = Some (nodeId s) \<and> (nodeId s, snd ?h) \<in> set ?L
            \<and> depth n = depth (snd ?h) + 1 \<and> i \<in> set (childrenIds (snd ?h))"
          using a hp hd by simp
        then show ?thesis by blast
      next
        assume "\<exists>p pn. parentId n = Some p \<and> (p, pn) \<in> set ?K
            \<and> depth n = depth pn + 1 \<and> i \<in> set (childrenIds pn)"
        then show ?thesis using L by blast
      qed
    qed
  qed
next
  case 7
  show ?case by simp
next
  case (8 k c rest)
  show ?case
  proof (intro allI impI)
    fix segs pid d s i n
    let ?A = "flat c (segs @ [Key k]) (Some k) (Some pid) (d + 1) s"
    let ?B = "flat_entries rest segs pid d (s + count c)"
    let ?L = "flat_entries ((k, c) # rest) segs pid d s"
    have L: "set ?L = set ?A \<union> set ?B" by simp
    have ks: "set (kid_seqs (map snd ((k, c) # rest)) s) = insert s (set (kid_seqs (map snd rest) (s + count c)))"
      by simp
    assume "(i, n) \<in> set ?L"
    then have "(i, n) \<in> set ?A \<or> (i, n) \<in> set ?B" by (simp only: L Un_iff)
    then show "(i \<in> nodeId ` set (kid_seqs (map snd ((k, c) # rest)) s) \<and> parentId n = Some pid \<and> depth n = d + 1)
     \<or> (\<exists>p pn. parentId n = Some p \<and> (p, pn) \<in> set ?L
            \<and> depth n = depth pn + 1 \<and> i \<in> set (childrenIds pn))"
    proof
      assume "(i, n) \<in> set ?A"
      with "8.IH"(1) have "(i = nodeId s \<and> parentId n = Some pid \<and> depth n = d + 1)
        \<or> (\<exists>p pn. parentId n = Some p \<and> (p, pn) \<in> set ?A
            \<and> depth n = depth pn + 1 \<and> i \<in> set (childrenIds pn))"
        by blast
      then show ?thesis unfolding L ks by blast
    next
      assume "(i, n) \<in> set ?B"
      with "8.IH"(2) have "(i \<in> nodeId ` set (kid_seqs (map snd rest) (s + count c)) \<and> parentId n = Some pid \<and> depth n = d + 1)
        \<or> (\<exists>p pn. parentId n = Some p \<and> (p, pn) \<in> set ?B
            \<and> depth n = depth pn + 1 \<and> i \<in> set (childrenIds pn))"
        by blast
      then show ?thesis unfolding L ks by blast
    qed
  qed
next
  case 9
  show ?case by simp
next
  case (10 c rest)
  show ?case
  proof (intro allI impI)
    fix j segs pid d s i n
    let ?A = "flat c (segs @ [Index j]) (Some (decimal j)) (Some pid) (d + 1) s"
    let ?B = "flat_items rest (j + 1) segs pid d (s + count c)"
    let ?L = "flat_items (c # rest) j segs pid d s"
    have L: "set ?L = set ?A \<union> set ?B" by simp
    have ks: "set (kid_seqs (c # rest) s) = insert s (set (kid_seqs rest (s + count c)))"
      by simp
    assume "(i, n) \<in> set ?L"
    then have "(i, n) \<in> set ?A \<or> (i, n) \<in> set ?B" by (simp only: L Un_iff)
    then show "(i \<in> nodeId ` set (kid_seqs (c # rest) s) \<and> parentId n = Some pid \<and> depth n = d + 1)
     \<or> (\<exists>p pn. parentId n = Some p \<and> (p, pn) \<in> set ?L
            \<and> depth n = depth pn + 1 \<and> i \<in> set (childrenIds pn))"
    proof
      assume "(i, n) \<in> set ?A"
      with "10.IH"(1) have "(i = nodeId s \<and> parentId n = Some pid \<and> depth n = d + 1)
        \<or> (\<exists>p pn. parentId n = Some p \<and> (p, pn) \<in> set ?A
            \<and> depth n = depth pn + 1 \<and> i \<in> set (childrenIds pn))"
        by blast
      then show ?thesis unfolding L ks by blast
    next
      assume "(i, n) \<in> set ?B"
      with "10.IH"(2) have "(i \<in> nodeId ` set (kid_seqs rest (s + count c)) \<and> parentId n = Some pid \<and> depth n = d + 1)
        \<or> (\<exists>p pn. parentId n = Some p \<and> (p, pn) \<in> set ?B
            \<and> depth n = depth pn + 1 \<and> i \<in> set (childrenIds pn))"
        by blast
      then show ?thesis unfolding L ks by blast
    qed
  qed
qed

section \<open>The indexed tree is well-formed\<close>

lemma count_pos: "0 < count v"
  by (cases v) simp_all

lemma inj_nodeId: "inj nodeId"
  by (rule injI) simp

lemma buildTree_keys: "map fst (nodes (buildTree v)) = map nodeId [0..<count v]"
  using keys_flat(1) [of v] by (simp add: buildTree_flat)

lemma buildTree_distinct: "distinct (map fst (nodes (buildTree v)))"
  by (simp add: buildTree_keys distinct_map inj_on_def)

lemma node_at_iff: "node_at (buildTree v) i = Some n \<longleftrightarrow> (i, n) \<in> set (nodes (buildTree v))"
  by (simp add: node_at_def buildTree_distinct)

lemma node_at_dom: "node_at (buildTree v) i \<noteq> None \<longleftrightarrow> (\<exists>a<count v. i = nodeId a)"
proof -
  have "node_at (buildTree v) i \<noteq> None \<longleftrightarrow> i \<in> set (map fst (nodes (buildTree v)))"
    unfolding node_at_def by (metis list.set_map map_of_eq_None_iff)
  also have "\<dots> \<longleftrightarrow> (\<exists>a<count v. i = nodeId a)"
    by (auto simp: buildTree_keys)
  finally show ?thesis .
qed

lemma buildTree_children:
  assumes "node_at (buildTree v) i = Some n" and "c \<in> set (childrenIds n)"
  shows "\<exists>a b. i = nodeId a \<and> c = nodeId b \<and> a < b \<and> b < count v"
proof -
  from assms(1) have "(i, n) \<in> set (flat v [] None None 0 0)"
    by (simp add: node_at_iff) (simp add: buildTree_flat)
  with children_later(1) [of v] assms(2) show ?thesis
    by (metis add_0)
qed

lemma buildTree_parent:
  assumes "node_at (buildTree v) i = Some n"
  shows "(i = nodeId 0 \<and> parentId n = None \<and> depth n = 0)
     \<or> (\<exists>p pn. parentId n = Some p \<and> node_at (buildTree v) p = Some pn
            \<and> depth n = depth pn + 1 \<and> i \<in> set (childrenIds pn))"
proof -
  from assms have "(i, n) \<in> set (flat v [] None None 0 0)"
    by (simp add: node_at_iff) (simp add: buildTree_flat)
  with parent_link(1) [of v]
  have "(i = nodeId 0 \<and> parentId n = None \<and> depth n = 0)
     \<or> (\<exists>p pn. parentId n = Some p \<and> (p, pn) \<in> set (flat v [] None None 0 0)
            \<and> depth n = depth pn + 1 \<and> i \<in> set (childrenIds pn))"
    by blast
  moreover have "(p, pn) \<in> set (flat v [] None None 0 0) \<longleftrightarrow> node_at (buildTree v) p = Some pn" for p pn
    by (simp add: node_at_iff) (simp add: buildTree_flat)
  ultimately show ?thesis by simp
qed

lemma graph_increasing:
  assumes "(p, c) \<in> parent_child_graph (buildTree v)"
  shows "\<exists>a b. p = nodeId a \<and> c = nodeId b \<and> a < b \<and> b < count v"
proof -
  from assms have "(\<exists>n. node_at (buildTree v) p = Some n \<and> c \<in> set (childrenIds n))
      \<or> (\<exists>n. node_at (buildTree v) c = Some n \<and> parentId n = Some p)"
    by (simp add: parent_child_graph_def)
  then show ?thesis
  proof
    assume "\<exists>n. node_at (buildTree v) p = Some n \<and> c \<in> set (childrenIds n)"
    then show ?thesis using buildTree_children by blast
  next
    assume "\<exists>n. node_at (buildTree v) c = Some n \<and> parentId n = Some p"
    then obtain n where n: "node_at (buildTree v) c = Some n" "parentId n = Some p" by blast
    from buildTree_parent [OF n(1)] n(2)
    obtain pn where "node_at (buildTree v) p = Some pn" "c \<in> set (childrenIds pn)"
      by auto
    then show ?thesis using buildTree_children by blast
  qed
qed

lemma graph_acyclic: "acyclic (parent_child_graph (buildTree v))"
proof -
  have "parent_child_graph (buildTree v) \<subseteq> inv_image less_than (inv nodeId)"
  proof
    fix e assume e: "e \<in> parent_child_graph (buildTree v)"
    obtain p c where pc: "e = (p, c)" by (cases e)
    with e graph_increasing [of p c v] obtain a b where "p = nodeId a" "c = nodeId b" "a < b"
      by blast
    with pc show "e \<in> inv_image less_than (inv nodeId)"
      by (simp add: inv_f_f [OF inj_nodeId])
  qed
  moreover have "acyclic (inv_image less_than (inv nodeId))"
    by (intro wf_acyclic wf_inv_image wf_less_than)
  ultimately show ?thesis by (rule acyclic_subset [rotated])
qed

lemma graph_finite: "finite (parent_child_graph (buildTree v))"
proof -
  have "parent_child_graph (buildTree v) \<subseteq> nodeId ` {..<count v} \<times> nodeId ` {..<count v}"
  proof
    fix e assume e: "e \<in> parent_child_graph (buildTree v)"
    obtain p c where pc: "e = (p, c)" by (cases e)
    with e graph_increasing [of p c v] obtain a b where "p = nodeId a" "c = nodeId b" "a < b" "b < count v"
      by blast
    with pc show "e \<in> nodeId ` {..<count v} \<times> nodeId ` {..<count v}"
      by simp
  qed
  then show ?thesis by (rule finite_subset) simp
qed


lemma buildTree_root:
  "\<exists>rn. node_at (buildTree v) (nodeId 0) = Some rn \<and> parentId rn = None \<and> depth rn = 0"
proof -
  from node_at_dom [of v "nodeId 0"] count_pos [of v]
  obtain rn where rn: "node_at (buildTree v) (nodeId 0) = Some rn" by auto
  from buildTree_parent [OF rn] show ?thesis
  proof
    assume "nodeId 0 = nodeId 0 \<and> parentId rn = None \<and> depth rn = 0"
    with rn show ?thesis by simp
  next
    assume "\<exists>p pn. parentId rn = Some p \<and> node_at (buildTree v) p = Some pn
            \<and> depth rn = depth pn + 1 \<and> nodeId 0 \<in> set (childrenIds pn)"
    then obtain p pn where "node_at (buildTree v) p = Some pn" "nodeId 0 \<in> set (childrenIds pn)"
      by blast
    from buildTree_children [OF this] show ?thesis by simp
  qed
qed

text \<open>
  C8. Every tree the indexer builds is well-formed: each id in a node's \<open>childrenIds\<close>
  and each \<open>parentId\<close> is a key of \<open>nodes\<close>; the graph of parent and child links is
  finite and acyclic; \<open>rootIds\<close> holds exactly one id, the root is in \<open>nodes\<close>, has no
  parent and depth 0; every other node has a parent in \<open>nodes\<close> and the parent's depth
  plus one.
\<close>

theorem buildTree_well_formed:
  "(\<forall>i n c. node_at (buildTree v) i = Some n \<and> c \<in> set (childrenIds n)
       \<longrightarrow> node_at (buildTree v) c \<noteq> None)
   \<and> (\<forall>i n p. node_at (buildTree v) i = Some n \<and> parentId n = Some p
       \<longrightarrow> node_at (buildTree v) p \<noteq> None)
   \<and> finite (parent_child_graph (buildTree v))
   \<and> acyclic (parent_child_graph (buildTree v))
   \<and> (\<exists>r rn. rootIds (buildTree v) = [r] \<and> node_at (buildTree v) r = Some rn
         \<and> parentId rn = None \<and> depth rn = 0
         \<and> (\<forall>i n. node_at (buildTree v) i = Some n \<and> i \<noteq> r
               \<longrightarrow> (\<exists>p pn. parentId n = Some p \<and> node_at (buildTree v) p = Some pn
                        \<and> depth n = depth pn + 1)))"
proof (intro conjI)
  show "\<forall>i n c. node_at (buildTree v) i = Some n \<and> c \<in> set (childrenIds n)
       \<longrightarrow> node_at (buildTree v) c \<noteq> None"
    using buildTree_children node_at_dom by blast
  show "\<forall>i n p. node_at (buildTree v) i = Some n \<and> parentId n = Some p
       \<longrightarrow> node_at (buildTree v) p \<noteq> None"
    using buildTree_parent by fastforce
  show "finite (parent_child_graph (buildTree v))" by (rule graph_finite)
  show "acyclic (parent_child_graph (buildTree v))" by (rule graph_acyclic)
  from buildTree_root [of v] obtain rn where
    rn: "node_at (buildTree v) (nodeId 0) = Some rn" "parentId rn = None" "depth rn = 0"
    by blast
  have r: "rootIds (buildTree v) = [nodeId 0]" by (simp add: buildTree_flat)
  have rest: "\<forall>i n. node_at (buildTree v) i = Some n \<and> i \<noteq> nodeId 0
               \<longrightarrow> (\<exists>p pn. parentId n = Some p \<and> node_at (buildTree v) p = Some pn
                        \<and> depth n = depth pn + 1)"
    using buildTree_parent by blast
  from r rn rest
  show "\<exists>r rn. rootIds (buildTree v) = [r] \<and> node_at (buildTree v) r = Some rn
         \<and> parentId rn = None \<and> depth rn = 0
         \<and> (\<forall>i n. node_at (buildTree v) i = Some n \<and> i \<noteq> r
               \<longrightarrow> (\<exists>p pn. parentId n = Some p \<and> node_at (buildTree v) p = Some pn
                        \<and> depth n = depth pn + 1))"
    by blast
qed

theorem buildTree_well_formed_witness:
  "node_at (buildTree (JObject [(''a'', JNumber (Finite ''1''))])) ''node-1'' \<noteq> None
   \<and> node_at (buildTree (JObject [(''a'', JNumber (Finite ''1''))])) ''node-0'' \<noteq> None
   \<and> finite (parent_child_graph (buildTree (JObject [(''a'', JNumber (Finite ''1''))])))
   \<and> acyclic (parent_child_graph (buildTree (JObject [(''a'', JNumber (Finite ''1''))])))
   \<and> rootIds (buildTree (JObject [(''a'', JNumber (Finite ''1''))])) = [''node-0'']
   \<and> map_option depth (node_at (buildTree (JObject [(''a'', JNumber (Finite ''1''))])) ''node-1'') = Some 1"
proof -
  let ?t = "buildTree (JObject [(''a'', JNumber (Finite ''1''))])"
  have e0: "map_option childrenIds (node_at ?t ''node-0'') = Some [''node-1'']" by code_simp
  have e1: "map_option parentId (node_at ?t ''node-1'') = Some (Some ''node-0'')" by code_simp
  have e2: "rootIds ?t = [''node-0'']" by code_simp
  from e0 obtain n0 where n0: "node_at ?t ''node-0'' = Some n0" "''node-1'' \<in> set (childrenIds n0)"
    by auto
  from e1 obtain n1 where n1: "node_at ?t ''node-1'' = Some n1" "parentId n1 = Some ''node-0''"
    by auto
  note wf = buildTree_well_formed [of "JObject [(''a'', JNumber (Finite ''1''))]"]
  from wf n0 have c1: "node_at ?t ''node-1'' \<noteq> None" by blast
  from wf n1 have c2: "node_at ?t ''node-0'' \<noteq> None" by blast
  from wf have c3: "finite (parent_child_graph ?t)" and c4: "acyclic (parent_child_graph ?t)"
    by blast+
  from wf e2 obtain rn where rn: "node_at ?t ''node-0'' = Some rn" "depth rn = 0"
    and rest: "\<forall>i n. node_at ?t i = Some n \<and> i \<noteq> ''node-0''
               \<longrightarrow> (\<exists>p pn. parentId n = Some p \<and> node_at ?t p = Some pn \<and> depth n = depth pn + 1)"
    by auto
  have "''node-1'' \<noteq> ''node-0''" by simp
  with rest n1(1) obtain p pn where "parentId n1 = Some p" "node_at ?t p = Some pn" "depth n1 = depth pn + 1"
    by blast
  with n1(2) rn have "depth n1 = 1" by simp
  with n1(1) have c5: "map_option depth (node_at ?t ''node-1'') = Some 1" by simp
  from c1 c2 c3 c4 e2 c5 show ?thesis by blast
qed

section \<open>Fields of indexed nodes\<close>

lemma make_node_searchText:
  "searchText (make_node i v segs dkey parent d) =
     toLowerCase (join '' ''
       [(case dkey of None \<Rightarrow> [] | Some s \<Rightarrow> s), pathTextFromSegments segs,
        (if determineKind v = KObject then ''object''
         else if determineKind v = KArray then ''array'' else js_String v),
        summary_of (determineKind v) v])"
  by (simp only: make_node_def Let_def TreeNode.select_convs)

lemma buildTree_node_form:
  assumes "node_at (buildTree v) i = Some n"
  shows "made_by_indexer i n"
proof -
  have "made_by_indexer (fst (flat_head w segs dkey parent d s)) (snd (flat_head w segs dkey parent d s))"
    for w segs dkey parent d s
    unfolding made_by_indexer_def flat_head_def fst_conv snd_conv by blast
  from flat_all(1) [of "\<lambda>x. made_by_indexer (fst x) (snd x)" v, OF this]
  have "\<forall>x \<in> set (nodes (buildTree v)). made_by_indexer (fst x) (snd x)"
    by (simp add: buildTree_flat)
  moreover from assms have "(i, n) \<in> set (nodes (buildTree v))"
    by (simp add: node_at_iff)
  ultimately show ?thesis by fastforce
qed

lemma indexed_searchText:
  assumes "made_by_indexer i n"
  shows "searchText n =
     toLowerCase (join '' ''
       [(case displayKey n of None \<Rightarrow> [] | Some s \<Rightarrow> s), pathText n,
        (if kind n = KObject then ''object''
         else if kind n = KArray then ''array'' else js_String (node_value n)),
        summary n])"
proof -
  from assms obtain v segs dkey parent d kids
    where n: "n = (make_node i v segs dkey parent d)\<lparr>childrenIds := kids\<rparr>"
    unfolding made_by_indexer_def by blast
  show ?thesis unfolding n by (simp add: make_node_searchText)
qed

lemma indexed_kind:
  assumes "made_by_indexer i n"
  shows "kind n = determineKind (node_value n)"
proof -
  from assms obtain v segs dkey parent d kids
    where n: "n = (make_node i v segs dkey parent d)\<lparr>childrenIds := kids\<rparr>"
    unfolding made_by_indexer_def by blast
  show ?thesis unfolding n by simp
qed


lemma indexed_hasChildren:
  assumes "made_by_indexer i n"
  shows "hasChildren n \<longleftrightarrow> kind n = KObject \<or> kind n = KArray"
proof -
  from assms obtain v segs dkey parent d kids
    where n: "n = (make_node i v segs dkey parent d)\<lparr>childrenIds := kids\<rparr>"
    unfolding made_by_indexer_def by blast
  show ?thesis unfolding n by simp
qed

text \<open>
  C3 as stated fails: the root of the tree indexed from the number 42 has kind
  \<open>number\<close>, and its search text is \<open>" $ 42 42"\<close>, which does not contain the kind
  label and differs from the specified text.
\<close>

theorem searchText_counterexample:
  "searchText (snd (hd (nodes (buildTree (JNumber (Finite ''42''))))))
     \<noteq> spec_searchText (snd (hd (nodes (buildTree (JNumber (Finite ''42''))))))
   \<and> searchText (snd (hd (nodes (buildTree (JNumber (Finite ''42'')))))) = '' $ 42 42''
   \<and> kind (snd (hd (nodes (buildTree (JNumber (Finite ''42'')))))) = KNumber
   \<and> \<not> str_includes (searchText (snd (hd (nodes (buildTree (JNumber (Finite ''42''))))))) ''number''"
  by code_simp

text \<open>
  C3, amended. For every node of an indexed tree, \<open>searchText\<close> is the lower-cased,
  space-joined list of \<open>displayKey\<close> (empty for the root), \<open>pathText\<close>, a third
  component and \<open>summary\<close>; the third component is the kind label for object and array
  nodes and \<open>String(value)\<close> for scalar nodes. For a null node \<open>String(value)\<close> is
  the kind label, so the search text of object, array and null nodes is the specified one.
\<close>

theorem searchText_indexed:
  "node_at (buildTree v) i = Some n \<Longrightarrow>
   searchText n =
     toLowerCase (join '' ''
       [(case displayKey n of None \<Rightarrow> [] | Some s \<Rightarrow> s), pathText n,
        (if hasChildren n then kind_label (kind n) else js_String (node_value n)),
        summary n])
   \<and> (kind n = KObject \<or> kind n = KArray \<or> kind n = KNull \<longrightarrow> searchText n = spec_searchText n)"
proof -
  assume "node_at (buildTree v) i = Some n"
  then have m: "made_by_indexer i n" by (rule buildTree_node_form)
  have k: "kind n = determineKind (node_value n)" using m by (rule indexed_kind)
  have "(if hasChildren n then kind_label (kind n) else js_String (node_value n))
      = (if kind n = KObject then ''object''
         else if kind n = KArray then ''array'' else js_String (node_value n))"
    using indexed_hasChildren [OF m] by (auto simp: kind_label_def)
  with indexed_searchText [OF m] have e: "searchText n =
     toLowerCase (join '' ''
       [(case displayKey n of None \<Rightarrow> [] | Some s \<Rightarrow> s), pathText n,
        (if hasChildren n then kind_label (kind n) else js_String (node_value n)),
        summary n])" by simp
  have "kind n = KNull \<Longrightarrow> js_String (node_value n) = kind_label (kind n)"
    using k by (cases "node_value n") (simp_all add: kind_label_def)
  then have "kind n = KObject \<or> kind n = KArray \<or> kind n = KNull \<Longrightarrow>
      (if hasChildren n then kind_label (kind n) else js_String (node_value n)) = kind_label (kind n)"
    using indexed_hasChildren [OF m] by auto
  with e have "kind n = KObject \<or> kind n = KArray \<or> kind n = KNull \<Longrightarrow> searchText n = spec_searchText n"
    unfolding spec_searchText_def by (simp only:)
  with e show ?thesis by blast
qed

theorem searchText_indexed_witness:
  "map_option searchText (node_at (buildTree (JNumber (Finite ''42''))) ''node-0'') = Some '' $ 42 42''
   \<and> map_option searchText (node_at (buildTree JNull) ''node-0'') = Some '' $ null null''
   \<and> map_option spec_searchText (node_at (buildTree JNull) ''node-0'') = Some '' $ null null''"
proof -
  let ?t = "buildTree (JNumber (Finite ''42''))"
  have "map_option (\<lambda>n. (displayKey n, pathText n, hasChildren n, node_value n, summary n))
          (node_at ?t ''node-0'')
      = Some (None, ''$'', False, JNumber (Finite ''42''), ''42'')"
    by code_simp
  then obtain n where n: "node_at ?t ''node-0'' = Some n"
    and f: "displayKey n = None" "pathText n = ''$''" "\<not> hasChildren n"
      "node_value n = JNumber (Finite ''42'')" "summary n = ''42''"
    by auto
  have l: "toLowerCase (join '' '' [[], ''$'', ''42'', ''42'']) = '' $ 42 42''" by code_simp
  from searchText_indexed [OF n] f l have a: "searchText n = '' $ 42 42''"
    by (simp add: number_String_def)
  let ?u = "buildTree JNull"
  have "map_option (\<lambda>n. (kind n, spec_searchText n)) (node_at ?u ''node-0'')
      = Some (KNull, '' $ null null'')"
    by code_simp
  then obtain m where m: "node_at ?u ''node-0'' = Some m"
    and g: "kind m = KNull" "spec_searchText m = '' $ null null''"
    by auto
  from searchText_indexed [OF m] have "kind m = KNull \<Longrightarrow> searchText m = spec_searchText m"
    by blast
  with g have b: "searchText m = '' $ null null''" by simp
  from a b n m g show ?thesis by simp
qed

text \<open>
  C10. On a node of an indexed tree, copying the value of a string node gives the string
  itself, without JSON quotes; copying the value of a node of any other kind gives the
  compact JSON text of its value; copying the subtree always gives the JSON text with a
  two-space indent.
\<close>

theorem getValueForCopy_indexed:
  "node_at (buildTree v) i = Some n \<Longrightarrow>
     (kind n = KString \<longrightarrow> (\<exists>s. node_value n = JString s \<and> getValueForCopy n CopyValue = s))
   \<and> (kind n \<noteq> KString \<longrightarrow> getValueForCopy n CopyValue = JSON_stringify (node_value n))
   \<and> getValueForCopy n CopySubtree = JSON_stringify_indent 2 0 (node_value n)"
proof -
  assume "node_at (buildTree v) i = Some n"
  then have "made_by_indexer i n" by (rule buildTree_node_form)
  then have k: "kind n = determineKind (node_value n)" by (rule indexed_kind)
  show ?thesis
    by (cases "node_value n") (simp_all add: k getValueForCopy_def)
qed

theorem getValueForCopy_indexed_witness:
  "map_option (\<lambda>n. getValueForCopy n CopyValue)
      (node_at (buildTree (JArray [JString ''hi'', JNumber (Finite ''7'')])) ''node-1'') = Some ''hi''
   \<and> map_option (\<lambda>n. getValueForCopy n CopyValue)
      (node_at (buildTree (JArray [JString ''hi'', JNumber (Finite ''7'')])) ''node-2'') = Some ''7''
   \<and> map_option (\<lambda>n. getValueForCopy n CopySubtree)
      (node_at (buildTree (JArray [JString ''hi'', JNumber (Finite ''7'')])) ''node-2'') = Some ''7''"
proof -
  let ?t = "buildTree (JArray [JString ''hi'', JNumber (Finite ''7'')])"
  have "map_option (\<lambda>n. (kind n, node_value n)) (node_at ?t ''node-1'') = Some (KString, JString ''hi'')"
    by code_simp
  then obtain n1 where n1: "node_at ?t ''node-1'' = Some n1" "kind n1 = KString" "node_value n1 = JString ''hi''"
    by auto
  have "map_option (\<lambda>n. (kind n, node_value n)) (node_at ?t ''node-2'') = Some (KNumber, JNumber (Finite ''7''))"
    by code_simp
  then obtain n2 where n2: "node_at ?t ''node-2'' = Some n2" "kind n2 = KNumber" "node_value n2 = JNumber (Finite ''7'')"
    by auto
  from getValueForCopy_indexed [OF n1(1)] n1 have a: "getValueForCopy n1 CopyValue = ''hi''"
    by auto
  from getValueForCopy_indexed [OF n2(1)] n2 have b: "getValueForCopy n2 CopyValue = ''7''"
    and c: "getValueForCopy n2 CopySubtree = ''7''"
    by (simp_all add: number_JSON_def)
  from a b c n1(1) n2(1) show ?thesis by simp
qed

section \<open>Search Engine: proofs\<close>

lemma str_includes_prefix: "str_includes s q \<Longrightarrow> prefix p q \<Longrightarrow> str_includes s p"
proof (induction s)
  case Nil
  then show ?case by simp
next
  case (Cons c cs)
  from Cons.prems(1) have "prefix q (c # cs) \<or> str_includes cs q" by simp
  then show ?case
  proof
    assume "prefix q (c # cs)"
    with Cons.prems(2) have "prefix p (c # cs)" by (rule prefix_order.trans)
    then show ?thesis by simp
  next
    assume "str_includes cs q"
    from Cons.IH [OF this Cons.prems(2)] show ?thesis by simp
  qed
qed

lemma relookup:
  "distinct (map fst xs) \<Longrightarrow> set ys \<subseteq> set xs \<Longrightarrow>
   concat (map (\<lambda>ident. case map_of xs ident of None \<Rightarrow> [] | Some node \<Rightarrow> [(ident, node)]) (map fst ys)) = ys"
proof (induction ys)
  case Nil
  then show ?case by simp
next
  case (Cons y ys)
  obtain i n where y: "y = (i, n)" by (cases y)
  from Cons.prems y have m: "map_of xs i = Some n" by simp
  have step: "(case map_of xs i of None \<Rightarrow> [] | Some node \<Rightarrow> [(i, node)]) = [(i, n)]"
    by (simp only: m option.case)
  from Cons.prems have "set ys \<subseteq> set xs" by simp
  from Cons.IH [OF Cons.prems(1) this] show ?case
    unfolding y by (simp add: step)
qed

lemma filter_filter_matches:
  assumes "prefix p q"
  shows "filter (node_matches q) (filter (node_matches p) xs) = filter (node_matches q) xs"
proof -
  have "node_matches q x \<Longrightarrow> node_matches p x" for x
    unfolding node_matches_def using assms by (auto intro: str_includes_prefix)
  then show ?thesis by (induction xs) auto
qed

lemma prefix_candidates_ok:
  assumes d: "distinct (map fst (nodes t))" and c: "cache_coherent t cache" and i: "i \<le> length q"
  shows "filter (node_matches q) (prefix_candidates t cache q i) = filter (node_matches q) (nodes t)"
  using i
proof (induction i)
  case 0
  show ?case by simp
next
  case (Suc i)
  show ?case
  proof (cases "map_of cache (take (Suc i) q)")
    case None
    with Suc show ?thesis by simp
  next
    case (Some ids)
    then have "(take (Suc i) q, ids) \<in> set cache" by (rule map_of_SomeD)
    with c have ids: "ids = map fst (filter (node_matches (take (Suc i) q)) (nodes t))"
      by (simp add: cache_coherent_def naive_search_def)
    have pc: "prefix_candidates t cache q (Suc i) = filter (node_matches (take (Suc i) q)) (nodes t)"
      using Some relookup [OF d, of "filter (node_matches (take (Suc i) q)) (nodes t)"]
      by (simp add: ids node_at_def)
    show ?thesis
      unfolding pc by (rule filter_filter_matches) (rule take_is_prefix)
  qed
qed

lemma searchMatchIds_result:
  assumes "distinct (map fst (nodes t))" and "cache_coherent t cache"
  shows "q \<noteq> [] \<Longrightarrow> fst (searchMatchIds t cache q) = naive_search t q"
proof (cases "map_of cache q")
  case None
  assume "q \<noteq> []"
  with None prefix_candidates_ok [OF assms, of "length q - 1" q] show ?thesis
    by (simp add: searchMatchIds_def Let_def naive_search_def)
next
  case (Some ids)
  assume "q \<noteq> []"
  from Some have "(q, ids) \<in> set cache" by (rule map_of_SomeD)
  with assms(2) have "ids = naive_search t q" by (simp add: cache_coherent_def)
  with Some \<open>q \<noteq> []\<close> show ?thesis by (simp add: searchMatchIds_def)
qed

lemma str_includes_sublist: "str_includes s q \<longleftrightarrow> sublist q s"
  by (induction s) (simp_all add: sublist_Cons_right)

lemma update_set: "set (AList.update k v al) \<subseteq> insert (k, v) (set al)"
  by (induction al) auto

lemma delete_set: "set (AList.delete k al) \<subseteq> set al"
  by (auto simp: AList.delete_eq)

lemma searchMatchIds_cache:
  "snd (searchMatchIds t cache q) = cache
   \<or> (\<exists>c1. set c1 \<subseteq> set cache
         \<and> snd (searchMatchIds t cache q) = AList.update q (fst (searchMatchIds t cache q)) c1)"
proof (cases "q = [] \<or> map_of cache q \<noteq> None")
  case True
  then show ?thesis by (auto simp: searchMatchIds_def)
next
  case False
  let ?c1 = "if length cache > 40
             then (case cache of [] \<Rightarrow> cache | oldest # _ \<Rightarrow> AList.delete (fst oldest) cache)
             else cache"
  have "set ?c1 \<subseteq> set cache"
  proof (cases cache)
    case Nil
    then show ?thesis by simp
  next
    case (Cons oldest rest)
    have "set (AList.delete (fst oldest) cache) \<subseteq> set cache" by (rule delete_set)
    with Cons show ?thesis by simp
  qed
  moreover from False have "snd (searchMatchIds t cache q) = AList.update q (fst (searchMatchIds t cache q)) ?c1"
    by (simp add: searchMatchIds_def Let_def)
  ultimately show ?thesis by blast
qed

lemma searchMatchIds_coherent:
  assumes d: "distinct (map fst (nodes t))" and c: "cache_coherent t cache" and q: "q \<noteq> []"
  shows "cache_coherent t (snd (searchMatchIds t cache q))"
proof -
  from searchMatchIds_cache [of t cache q] show ?thesis
  proof
    assume "snd (searchMatchIds t cache q) = cache"
    with c show ?thesis by simp
  next
    assume "\<exists>c1. set c1 \<subseteq> set cache
         \<and> snd (searchMatchIds t cache q) = AList.update q (fst (searchMatchIds t cache q)) c1"
    then obtain c1 where c1: "set c1 \<subseteq> set cache"
      and s: "snd (searchMatchIds t cache q) = AList.update q (fst (searchMatchIds t cache q)) c1"
      by blast
    have r: "fst (searchMatchIds t cache q) = naive_search t q"
      using d c q by (rule searchMatchIds_result)
    have "set (snd (searchMatchIds t cache q)) \<subseteq> insert (q, naive_search t q) (set cache)"
      unfolding s r using update_set [of q "naive_search t q" c1] c1 by blast
    with c show ?thesis
      unfolding cache_coherent_def by blast
  qed
qed

lemma filter_ascending:
  "map fst L = map nodeId [s..<s + length L] \<Longrightarrow>
   \<exists>ks. sorted_wrt (<) ks \<and> (\<forall>k \<in> set ks. s \<le> k) \<and> map fst (filter P L) = map nodeId ks"
proof (induction L arbitrary: s)
  case Nil
  show ?case by simp
next
  case (Cons x xs)
  have u: "[s..<s + length (x # xs)] = s # [s + 1..<s + 1 + length xs]"
    using upt_step [of s "length xs"] by simp
  from Cons.prems have hd: "fst x = nodeId s" and tl: "map fst xs = map nodeId [s + 1..<s + 1 + length xs]"
    unfolding u by simp_all
  from Cons.IH [OF tl] obtain ks where ks: "sorted_wrt (<) ks" "\<forall>k \<in> set ks. s + 1 \<le> k"
    "map fst (filter P xs) = map nodeId ks"
    by blast
  show ?case
  proof (cases "P x")
    case True
    have "sorted_wrt (<) (s # ks)" using ks(1,2) by auto
    moreover have "\<forall>k \<in> set (s # ks). s \<le> k" using ks(2) by auto
    moreover have "map fst (filter P (x # xs)) = map nodeId (s # ks)"
      using True hd ks(3) by simp
    ultimately show ?thesis by blast
  next
    case False
    have "\<forall>k \<in> set ks. s \<le> k" using ks(2) by auto
    moreover have "map fst (filter P (x # xs)) = map nodeId ks"
      using False ks(3) by simp
    ultimately show ?thesis using ks(1) by blast
  qed
qed

lemma naive_search_ascending:
  "\<exists>ks. sorted_wrt (<) ks \<and> naive_search (buildTree v) q = map nodeId ks"
proof -
  have "length (nodes (buildTree v)) = count v"
    using arg_cong [OF buildTree_keys [of v], of length] by simp
  with buildTree_keys [of v]
  have "map fst (nodes (buildTree v)) = map nodeId [0..<0 + length (nodes (buildTree v))]"
    by simp
  from filter_ascending [OF this, of "node_matches q"] show ?thesis
    unfolding naive_search_def by blast
qed

lemma naive_search_set:
  "i \<in> set (naive_search (buildTree v) q)
     \<longleftrightarrow> (\<exists>n. node_at (buildTree v) i = Some n \<and> sublist q (searchText n))"
  unfolding naive_search_def node_at_iff
  by (force simp: node_matches_def str_includes_sublist)

text \<open>
  C2. On an indexed tree, with a cache whose entries are scan results of that tree (as
  every cache filled by searches on it is), a non-empty query answered through the
  prefix cache gives exactly the result of scanning every node: the ids of the nodes
  whose \<open>searchText\<close> contains the query as a substring, in ascending order of their
  sequence numbers (document order). The cache it leaves is coherent again.
\<close>

theorem searchMatchIds_refines_naive:
  assumes "cache_coherent (buildTree v) cache" and "q \<noteq> []"
  shows "fst (searchMatchIds (buildTree v) cache q) = naive_search (buildTree v) q
     \<and> cache_coherent (buildTree v) (snd (searchMatchIds (buildTree v) cache q))
     \<and> (\<forall>i. i \<in> set (naive_search (buildTree v) q)
            \<longleftrightarrow> (\<exists>n. node_at (buildTree v) i = Some n \<and> sublist q (searchText n)))
     \<and> (\<exists>ks. sorted_wrt (<) ks \<and> naive_search (buildTree v) q = map nodeId ks)"
  using searchMatchIds_result [OF buildTree_distinct assms]
    searchMatchIds_coherent [OF buildTree_distinct assms]
    naive_search_set [of _ v q] naive_search_ascending [of v q]
  by blast

theorem searchMatchIds_refines_naive_witness:
  "fst (searchMatchIds (buildTree (JObject [(''a'', JNumber (Finite ''1''))]))
         (snd (searchMatchIds (buildTree (JObject [(''a'', JNumber (Finite ''1''))])) [] ''a'')) ''a '')
     = [''node-1'']
   \<and> naive_search (buildTree (JObject [(''a'', JNumber (Finite ''1''))])) ''a '' = [''node-1'']
   \<and> map fst (snd (searchMatchIds (buildTree (JObject [(''a'', JNumber (Finite ''1''))])) [] ''a'')) = [''a'']"
proof -
  let ?t = "buildTree (JObject [(''a'', JNumber (Finite ''1''))])"
  have e: "cache_coherent ?t []" by (simp add: cache_coherent_def)
  have n1: "''a'' \<noteq> []" and n2: "''a '' \<noteq> []" by simp_all
  from searchMatchIds_refines_naive [OF e n1]
  have c: "cache_coherent ?t (snd (searchMatchIds ?t [] ''a''))" by blast
  from searchMatchIds_refines_naive [OF c n2]
  have r: "fst (searchMatchIds ?t (snd (searchMatchIds ?t [] ''a'')) ''a '') = naive_search ?t ''a ''"
    by blast
  have v: "naive_search ?t ''a '' = [''node-1'']" by code_simp
  have k: "map fst (snd (searchMatchIds ?t [] ''a'')) = [''a'']" by code_simp
  from r v k show ?thesis by simp
qed

lemma length_update_le: "length (AList.update k v al) \<le> length al + 1"
  by (induction al) auto

lemma delete_oldest: "AList.delete (fst oldest) (oldest # rest) = AList.delete (fst oldest) rest"
  by (cases oldest) (simp add: AList.delete_eq)

lemma length_delete_oldest: "length (AList.delete (fst oldest) (oldest # rest)) \<le> length rest"
  unfolding delete_oldest by (rule AList.length_delete_le)

lemma searchMatchIds_length:
  assumes "length cache \<le> 41"
  shows "length (snd (searchMatchIds t cache q)) \<le> 41"
proof (cases "q = [] \<or> map_of cache q \<noteq> None")
  case True
  with assms show ?thesis by (auto simp: searchMatchIds_def)
next
  case False
  let ?r = "fst (searchMatchIds t cache q)"
  show ?thesis
  proof (cases "length cache > 40")
    case small: False
    with False have "snd (searchMatchIds t cache q) = AList.update q ?r cache"
      by (simp add: searchMatchIds_def Let_def)
    with length_update_le [of q ?r cache] small show ?thesis by simp
  next
    case True
    then obtain oldest rest where c: "cache = oldest # rest" by (cases cache) auto
    with False True
    have "snd (searchMatchIds t cache q) = AList.update q ?r (AList.delete (fst oldest) (oldest # rest))"
      by (simp add: searchMatchIds_def Let_def)
    with length_update_le [of q ?r "AList.delete (fst oldest) (oldest # rest)"]
      length_delete_oldest [of oldest rest] assms c
    show ?thesis by simp
  qed
qed

lemma run_searches_length: "length cache \<le> 41 \<Longrightarrow> length (run_searches t qs cache) \<le> 41"
  unfolding run_searches_def
  by (induction qs arbitrary: cache) (simp_all add: searchMatchIds_length)

lemma no_key: "map_of cache q = None \<Longrightarrow> q \<notin> fst ` set cache"
  by (simp add: map_of_eq_None_iff)

lemma run41_keys:
  "map fst (run_searches (buildTree JNull) forty_one_queries []) = forty_one_queries"
  by code_simp

lemma forty_one_facts:
  "length forty_one_queries = 41" "distinct forty_one_queries" "''zz'' \<notin> set forty_one_queries"
  by code_simp+

lemma run41_length: "length (run_searches (buildTree JNull) forty_one_queries []) = 41"
  using arg_cong [OF run41_keys, of length] forty_one_facts(1) by simp

text \<open>
  C4 as stated fails: forty-one searches with distinct queries, starting from the empty
  cache, leave forty-one entries in the cache.
\<close>

theorem cache_size_counterexample:
  "length forty_one_queries = 41
   \<and> length (run_searches (buildTree JNull) forty_one_queries []) = 41
   \<and> \<not> length (run_searches (buildTree JNull) forty_one_queries []) \<le> 40"
  by (simp add: run41_length forty_one_facts(1))

text \<open>
  C4, amended. The cache never holds more than 41 entries: a search keeps that bound, so
  every run of searches from the empty cache does. A new result is appended without
  eviction while the cache holds at most 40 entries; once it holds more than 40, the
  oldest entry is removed before the new one is appended.
\<close>

theorem searchMatchIds_cache_bound:
  "(length cache \<le> 41 \<longrightarrow> length (snd (searchMatchIds t cache q)) \<le> 41)
   \<and> length (run_searches t qs []) \<le> 41
   \<and> (q \<noteq> [] \<and> map_of cache q = None \<and> length cache \<le> 40
        \<longrightarrow> map fst (snd (searchMatchIds t cache q)) = map fst cache @ [q])
   \<and> (q \<noteq> [] \<and> map_of cache q = None \<and> 40 < length cache \<and> distinct (map fst cache)
        \<longrightarrow> map fst (snd (searchMatchIds t cache q)) = tl (map fst cache) @ [q])"
proof (intro conjI impI)
  assume "length cache \<le> 41"
  then show "length (snd (searchMatchIds t cache q)) \<le> 41" by (rule searchMatchIds_length)
next
  show "length (run_searches t qs []) \<le> 41" by (rule run_searches_length) simp
next
  assume a: "q \<noteq> [] \<and> map_of cache q = None \<and> length cache \<le> 40"
  then have "q \<notin> fst ` set cache" by (simp add: no_key)
  with a show "map fst (snd (searchMatchIds t cache q)) = map fst cache @ [q]"
    by (simp add: searchMatchIds_def Let_def update_fresh)
next
  assume a: "q \<noteq> [] \<and> map_of cache q = None \<and> 40 < length cache \<and> distinct (map fst cache)"
  then obtain oldest rest where c: "cache = oldest # rest" by (cases cache) auto
  from a have nk: "q \<notin> fst ` set cache" by (simp add: no_key)
  from a c have "fst oldest \<notin> fst ` set rest" by simp
  then have d: "AList.delete (fst oldest) (oldest # rest) = rest"
    unfolding delete_oldest by (rule AList.delete_id)
  from nk c have "q \<notin> fst ` set rest" by simp
  then have u: "AList.update q r rest = rest @ [(q, r)]" for r by (rule update_fresh)
  from a c show "map fst (snd (searchMatchIds t cache q)) = tl (map fst cache) @ [q]"
    by (simp add: searchMatchIds_def Let_def d u del: AList.delete_simps)
qed

theorem searchMatchIds_cache_bound_witness:
  "length (snd (searchMatchIds (buildTree JNull) (run_searches (buildTree JNull) forty_one_queries []) ''zz'')) \<le> 41
   \<and> map fst (snd (searchMatchIds (buildTree JNull) (run_searches (buildTree JNull) forty_one_queries []) ''zz''))
       = tl (map fst (run_searches (buildTree JNull) forty_one_queries [])) @ [''zz'']
   \<and> map fst (snd (searchMatchIds (buildTree JNull) [] ''zz'')) = [''zz'']"
proof -
  let ?t = "buildTree JNull"
  let ?c = "run_searches ?t forty_one_queries []"
  have l: "length ?c \<le> 41" and l': "40 < length ?c" by (simp_all add: run41_length)
  have "''zz'' \<notin> set (map fst ?c)" unfolding run41_keys by (rule forty_one_facts(3))
  then have m: "map_of ?c ''zz'' = None" by (simp add: map_of_eq_None_iff)
  have d: "distinct (map fst ?c)" unfolding run41_keys by (rule forty_one_facts(2))
  have q: "''zz'' \<noteq> []" by simp
  have e: "map_of ([] :: search_cache) ''zz'' = None" "length ([] :: search_cache) \<le> 40" by simp_all
  from searchMatchIds_cache_bound [of ?c ?t "''zz''" "[]"] l l' m d q
       searchMatchIds_cache_bound [of "[]" ?t "''zz''" "[]"] e
  show ?thesis by simp
qed

section \<open>Visibility Resolver: proofs\<close>

lemma nodeId_nonempty: "nodeId a \<noteq> []"
  by (simp add: nodeId_def)

lemma parent_of_root: "\<not> parent_of (buildTree v) (nodeId 0) p"
proof
  assume "parent_of (buildTree v) (nodeId 0) p"
  then obtain n where n: "node_at (buildTree v) (nodeId 0) = Some n" "parentId n = Some p"
    unfolding parent_of_def by blast
  from buildTree_root [of v] n show False by simp
qed

lemma parent_of_less:
  assumes "parent_of (buildTree v) x p"
  shows "\<exists>a b pn. x = nodeId a \<and> p = nodeId b \<and> b < a \<and> a < count v
           \<and> node_at (buildTree v) p = Some pn \<and> x \<in> set (childrenIds pn)"
proof -
  from assms obtain n where n: "node_at (buildTree v) x = Some n" "parentId n = Some p"
    unfolding parent_of_def by blast
  from buildTree_parent [OF n(1)] n(2)
  obtain pn where pn: "node_at (buildTree v) p = Some pn" "x \<in> set (childrenIds pn)"
    by auto
  from buildTree_children [OF pn] pn show ?thesis by blast
qed

lemma parent_of_exists:
  assumes "0 < a" "a < count v"
  shows "\<exists>p. parent_of (buildTree v) (nodeId a) p"
proof -
  from node_at_dom [of v "nodeId a"] assms(2)
  obtain n where n: "node_at (buildTree v) (nodeId a) = Some n" by auto
  from buildTree_parent [OF n] assms(1) show ?thesis
    unfolding parent_of_def using n by auto
qed

lemma ancestors_unfold:
  "ancestor_or_self t a m \<longleftrightarrow> a = m \<or> (\<exists>p. parent_of t m p \<and> ancestor_or_self t a p)"
  unfolding ancestor_or_self_def
  by (metis converse_rtranclpE converse_rtranclp_into_rtranclp rtranclp.rtrancl_refl)

lemma ancestors_no_parent:
  "(\<And>p. \<not> parent_of t m p) \<Longrightarrow> {a. ancestor_or_self t a m} = {m}"
  using ancestors_unfold [of t _ m] by auto

lemma ancestors_parent:
  assumes "node_at t m = Some n" "parentId n = Some p"
  shows "{a. ancestor_or_self t a m} = insert m {a. ancestor_or_self t a p}"
proof -
  have "parent_of t m p' \<longleftrightarrow> p' = p" for p'
    using assms by (auto simp: parent_of_def)
  with ancestors_unfold [of t _ m] show ?thesis by auto
qed

lemma scope_walk_node:
  "a < count v \<Longrightarrow> a + 2 \<le> fuel \<Longrightarrow>
   scope_walk fuel (buildTree v) (Some (nodeId a)) S
     = Some (S \<union> {x. ancestor_or_self (buildTree v) x (nodeId a)})"
proof (induction a arbitrary: fuel S rule: less_induct)
  case (less a)
  let ?t = "buildTree v"
  from less.prems obtain f where f: "fuel = Suc f" "a + 1 \<le> f" by (cases fuel) auto
  from node_at_dom [of v "nodeId a"] less.prems(1)
  obtain n where n: "node_at ?t (nodeId a) = Some n" by auto
  have step: "scope_walk fuel ?t (Some (nodeId a)) S = scope_walk f ?t (parentId n) (insert (nodeId a) S)"
    unfolding f by (simp add: nodeId_nonempty n)
  show ?case
  proof (cases "parentId n")
    case None
    then have "\<not> parent_of ?t (nodeId a) p" for p using n by (simp add: parent_of_def)
    then have A: "{x. ancestor_or_self ?t x (nodeId a)} = {nodeId a}" by (rule ancestors_no_parent)
    from f obtain f' where "f = Suc f'" by (cases f) auto
    then have "scope_walk f ?t None (insert (nodeId a) S) = Some (insert (nodeId a) S)" by simp
    with step None A show ?thesis by simp
  next
    case (Some p)
    then have "parent_of ?t (nodeId a) p" using n by (auto simp: parent_of_def)
    from parent_of_less [OF this] obtain b where b: "p = nodeId b" "b < a" by auto
    from b less.prems(1) have "b < count v" by simp
    moreover from b f have "b + 2 \<le> f" by simp
    ultimately have "scope_walk f ?t (Some (nodeId b)) (insert (nodeId a) S)
        = Some (insert (nodeId a) S \<union> {x. ancestor_or_self ?t x (nodeId b)})"
      using less.IH [OF b(2)] by blast
    moreover have "{x. ancestor_or_self ?t x (nodeId a)} = insert (nodeId a) {x. ancestor_or_self ?t x (nodeId b)}"
      using ancestors_parent [OF n] Some b(1) by simp
    ultimately show ?thesis using step Some b(1) by simp
  qed
qed

lemma scope_matches_nodes:
  assumes "set ms \<subseteq> nodeId ` {..<count v}" and "count v < fuel"
  shows "scope_matches fuel (buildTree v) ms S
     = Some (S \<union> {x. \<exists>m \<in> set ms. ancestor_or_self (buildTree v) x m})"
  using assms(1)
proof (induction ms arbitrary: S)
  case Nil
  show ?case by simp
next
  case (Cons m ms)
  from Cons.prems obtain a where a: "m = nodeId a" "a < count v" by auto
  with assms(2) have "a + 2 \<le> fuel" by simp
  from scope_walk_node [OF a(2) this]
  have w: "scope_walk fuel (buildTree v) (Some m) S = Some (S \<union> {x. ancestor_or_self (buildTree v) x m})"
    unfolding a(1) .
  from Cons.prems have "set ms \<subseteq> nodeId ` {..<count v}" by simp
  from Cons.IH [OF this] w show ?case by auto
qed

lemma traverse_all_total:
  assumes P: "\<And>ident out. enough_fuel v f ident \<Longrightarrow> traverse f vw ident out \<noteq> None"
  shows "(\<forall>c \<in> set cs. enough_fuel v f c) \<Longrightarrow> traverse_all f vw cs out \<noteq> None"
proof (induction cs arbitrary: out)
  case Nil
  show ?case by (simp add: traverse_all.simps)
next
  case (Cons c cs)
  from Cons.prems have "enough_fuel v f c" by simp
  from P [OF this] obtain out' where "traverse f vw c out = Some out'" by blast
  moreover from Cons.prems have "\<forall>c \<in> set cs. enough_fuel v f c" by simp
  from Cons.IH [OF this] have "traverse_all f vw cs out' \<noteq> None" .
  ultimately show ?case by (simp add: traverse_all.simps)
qed

lemma traverse_total:
  assumes t: "v_tree vw = buildTree v"
  shows "enough_fuel v fuel ident \<Longrightarrow> traverse fuel vw ident out \<noteq> None"
proof (induction fuel arbitrary: ident out)
  case 0
  then show ?case by (simp add: enough_fuel_def)
next
  case (Suc f)
  show ?case
  proof (cases "node_at (buildTree v) ident")
    case None
    then show ?thesis by (simp add: traverse.simps t)
  next
    case (Some node)
    have kids: "\<forall>c \<in> set (childrenIds node). enough_fuel v f c"
    proof
      fix c assume "c \<in> set (childrenIds node)"
      from buildTree_children [OF Some this]
      obtain a b where ab: "ident = nodeId a" "c = nodeId b" "a < b" "b < count v" by blast
      with Suc.prems have "count v - a \<le> Suc f" by (simp add: enough_fuel_def)
      with ab show "enough_fuel v f c" by (auto simp: enough_fuel_def)
    qed
    have "traverse_all f vw (childrenIds node) (out @ [ident]) \<noteq> None"
      using traverse_all_total [of v f vw "childrenIds node" "out @ [ident]"] Suc.IH kids by blast
    with Some show ?thesis by (simp add: traverse.simps t)
  qed
qed

lemma emits_append: "emits vw c a \<or> emits vw c b \<Longrightarrow> emits vw c (a @ b)"
  by (auto simp: emits_def)

lemma closed_append:
  "closed_under_children vw a \<Longrightarrow> closed_under_children vw b \<Longrightarrow> closed_under_children vw (a @ b)"
  unfolding closed_under_children_def
  by (metis Un_iff emits_append set_append)

lemma traverse_all_closed:
  assumes P: "\<And>ident out0 out. traverse f vw ident out0 = Some out \<Longrightarrow>
      \<exists>new. out = out0 @ new \<and> emits vw ident new \<and> closed_under_children vw new"
  shows "traverse_all f vw cs out0 = Some out \<Longrightarrow>
      \<exists>new. out = out0 @ new \<and> (\<forall>c \<in> set cs. emits vw c new) \<and> closed_under_children vw new"
proof (induction cs arbitrary: out0)
  case Nil
  then show ?case by (simp add: traverse_all.simps closed_under_children_def)
next
  case (Cons c cs)
  from Cons.prems obtain out1 where 1: "traverse f vw c out0 = Some out1"
    and 2: "traverse_all f vw cs out1 = Some out"
    by (auto simp: traverse_all.simps split: option.splits)
  from P [OF 1] obtain n1 where n1: "out1 = out0 @ n1" "emits vw c n1" "closed_under_children vw n1"
    by blast
  from Cons.IH [OF 2] obtain n2 where n2: "out = out1 @ n2" "\<forall>c \<in> set cs. emits vw c n2"
    "closed_under_children vw n2"
    by blast
  have "out = out0 @ (n1 @ n2)" using n1(1) n2(1) by simp
  moreover have "\<forall>x \<in> set (c # cs). emits vw x (n1 @ n2)"
    using n1(2) n2(2) by (auto intro: emits_append)
  moreover have "closed_under_children vw (n1 @ n2)"
    using n1(3) n2(3) by (rule closed_append)
  ultimately show ?case by blast
qed

lemma traverse_closed:
  assumes q: "v_normalizedSearch vw \<noteq> []"
  shows "traverse fuel vw ident out0 = Some out \<Longrightarrow>
      \<exists>new. out = out0 @ new \<and> emits vw ident new \<and> closed_under_children vw new"
proof (induction fuel arbitrary: ident out0 out)
  case 0
  then show ?case by (simp add: traverse.simps)
next
  case (Suc f)
  show ?case
  proof (cases "node_at (v_tree vw) ident")
    case None
    with Suc.prems have "out = out0 @ []" by (simp add: traverse.simps)
    moreover have "emits vw ident []" using None by (simp add: emits_def)
    moreover have "closed_under_children vw []" by (simp add: closed_under_children_def)
    ultimately show ?thesis by blast
  next
    case (Some node)
    show ?thesis
    proof (cases "out_of_scope vw ident")
      case True
      with Some Suc.prems have "out = out0 @ []" by (simp add: traverse.simps)
      moreover have "emits vw ident []"
        using True by (auto simp: emits_def out_of_scope_def in_scope_def split: option.splits)
      moreover have "closed_under_children vw []" by (simp add: closed_under_children_def)
      ultimately show ?thesis by blast
    next
      case False
      show ?thesis
      proof (cases "shouldExpand vw ident node")
        case noexp: False
        with Some False Suc.prems have o: "out = out0 @ [ident]" by (simp add: traverse.simps)
        have e: "emits vw ident [ident]" by (simp add: emits_def)
        have "closed_under_children vw [ident]"
        proof (cases "in_scope vw ident")
          case True
          with noexp q have "childrenIds node = []" by (simp add: shouldExpand_def)
          with Some show ?thesis by (simp add: closed_under_children_def)
        next
          case nin: False
          with False q have "v_visibleScopeSet vw = None"
            by (auto simp: out_of_scope_def in_scope_def split: option.splits)
          then have "\<not> in_scope vw c" for c by (simp add: in_scope_def)
          then show ?thesis by (simp add: closed_under_children_def emits_def)
        qed
        with o e show ?thesis by blast
      next
        case True
        with Some False Suc.prems
        have "traverse_all f vw (childrenIds node) (out0 @ [ident]) = Some out"
          by (simp add: traverse.simps)
        from traverse_all_closed [of f vw, OF Suc.IH this]
        obtain new where new: "out = (out0 @ [ident]) @ new"
          "\<forall>c \<in> set (childrenIds node). emits vw c new" "closed_under_children vw new"
          by blast
        have "out = out0 @ (ident # new)" using new(1) by simp
        moreover have "emits vw ident (ident # new)" by (simp add: emits_def)
        moreover have "closed_under_children vw (ident # new)"
          using new(2,3) Some closed_append [of vw "[ident]" new]
          unfolding closed_under_children_def emits_def by auto
        ultimately show ?thesis by blast
      qed
    qed
  qed
qed

lemma ancestor_step:
  "ancestor_or_self t a m \<Longrightarrow> parent_of t a p \<Longrightarrow> ancestor_or_self t p m"
  unfolding ancestor_or_self_def by (rule rtranclp.rtrancl_into_rtrancl)

lemma ancestor_is_node:
  assumes "ancestor_or_self (buildTree v) a m" and "\<exists>k<count v. m = nodeId k"
  shows "\<exists>k<count v. a = nodeId k"
  using assms unfolding ancestor_or_self_def
proof (induction rule: rtranclp_induct)
  case base
  then show ?case by simp
next
  case (step y z)
  from parent_of_less [OF step.hyps(2)] show ?case by force
qed

lemma naive_search_keys: "set (naive_search (buildTree v) q) \<subseteq> nodeId ` {..<count v}"
proof -
  have "set (naive_search (buildTree v) q) \<subseteq> set (map fst (nodes (buildTree v)))"
    unfolding naive_search_def by auto
  then show ?thesis unfolding buildTree_keys by auto
qed

lemma length_nodes: "length (nodes (buildTree v)) = count v"
  using arg_cong [OF buildTree_keys [of v], of length] by simp

lemma scoped_nodes_visible:
  assumes t: "v_tree vw = buildTree v"
    and up: "\<And>x p. in_scope vw x \<Longrightarrow> parent_of (buildTree v) x p \<Longrightarrow> in_scope vw p"
    and root: "emits vw (nodeId 0) new"
    and closed: "closed_under_children vw new"
  shows "b < count v \<Longrightarrow> in_scope vw (nodeId b) \<Longrightarrow> nodeId b \<in> set new"
proof (induction b rule: less_induct)
  case (less b)
  from node_at_dom [of v "nodeId b"] less.prems(1)
  have node: "node_at (v_tree vw) (nodeId b) \<noteq> None" unfolding t by auto
  show ?case
  proof (cases "b = 0")
    case True
    with root node less.prems(2) show ?thesis by (simp add: emits_def)
  next
    case False
    with parent_of_exists [of b v] less.prems(1)
    obtain p where p: "parent_of (buildTree v) (nodeId b) p" by auto
    from parent_of_less [OF p] obtain b' pn where b': "p = nodeId b'" "b' < b"
      "node_at (buildTree v) p = Some pn" "nodeId b \<in> set (childrenIds pn)"
      by auto
    from up [OF less.prems(2) p] have "in_scope vw (nodeId b')" unfolding b'(1) .
    moreover from b'(2) less.prems(1) have "b' < count v" by simp
    ultimately have "nodeId b' \<in> set new" using less.IH [OF b'(2)] by blast
    with closed b'(1,3,4) have "emits vw (nodeId b) new"
      unfolding closed_under_children_def t by blast
    with node less.prems(2) show ?thesis by (simp add: emits_def)
  qed
qed

text \<open>
  C1. For every indexed tree, every collapse state and every non-empty query, with the
  matches the Search Engine returns (from any coherent cache) and fuel above the number
  of nodes, the scope computation and the traversal both finish, and the visible
  sequence contains every match and every ancestor of every match up to the root,
  whatever the collapse state holds.
\<close>

theorem visible_includes_ancestors:
  assumes q: "q \<noteq> []"
    and c: "cache_coherent (buildTree v) cache"
    and fuel: "length (nodes (buildTree v)) < fuel"
  shows "\<exists>scope out.
      visibleScopeSet fuel (buildTree v) q (fst (searchMatchIds (buildTree v) cache q)) = Some (Some scope)
    \<and> visibleIds fuel (buildTree v) collapsed q (Some scope) = Some out
    \<and> (\<forall>m a. m \<in> set (fst (searchMatchIds (buildTree v) cache q)) \<and> ancestor_or_self (buildTree v) a m
          \<longrightarrow> a \<in> set out)"
proof -
  let ?t = "buildTree v"
  let ?ms = "fst (searchMatchIds ?t cache q)"
  let ?S = "{x. \<exists>m \<in> set ?ms. ancestor_or_self ?t x m}"
  let ?vw = "\<lparr>v_tree = ?t, v_collapsedIds = collapsed, v_normalizedSearch = q,
              v_visibleScopeSet = Some ?S\<rparr>"
  from fuel have f: "count v < fuel" by (simp add: length_nodes)
  have ms: "?ms = naive_search ?t q"
    using buildTree_distinct c q by (rule searchMatchIds_result)
  then have keys: "set ?ms \<subseteq> nodeId ` {..<count v}" using naive_search_keys by simp
  have scope: "visibleScopeSet fuel ?t q ?ms = Some (Some ?S)"
    using scope_matches_nodes [OF keys f, of "{}"] q by (simp add: visibleScopeSet_def)
  have r: "rootIds ?t = [nodeId 0]" by (simp add: buildTree_flat)
  have vis: "visibleIds fuel ?t collapsed q (Some ?S) = traverse_all fuel ?vw [nodeId 0] []"
    by (simp add: visibleIds_def r)
  have "\<forall>c \<in> set [nodeId 0]. enough_fuel v fuel c"
    using f by (simp add: enough_fuel_def)
  with traverse_all_total [of v fuel ?vw "[nodeId 0]" "[]"] traverse_total [of ?vw v fuel]
  obtain out where out: "traverse_all fuel ?vw [nodeId 0] [] = Some out" by auto
  from traverse_all_closed [of fuel ?vw, OF traverse_closed out] q
  have e: "emits ?vw (nodeId 0) out" and cl: "closed_under_children ?vw out" by auto
  have up: "in_scope ?vw x \<Longrightarrow> parent_of ?t x p \<Longrightarrow> in_scope ?vw p" for x p
    by (auto simp: in_scope_def intro: ancestor_step)
  have anc: "a \<in> set out" if m: "m \<in> set ?ms" and a: "ancestor_or_self ?t a m" for m a
  proof -
    from m keys have "\<exists>k<count v. m = nodeId k" by auto
    from ancestor_is_node [OF a this] obtain b where b: "a = nodeId b" "b < count v" by blast
    from m a have "in_scope ?vw (nodeId b)" unfolding b(1) [symmetric] by (auto simp: in_scope_def)
    from scoped_nodes_visible [of ?vw v out, OF _ up e cl b(2) this] show ?thesis
      unfolding b(1) by simp
  qed
  show ?thesis
  proof (intro exI conjI)
    show "visibleScopeSet fuel ?t q ?ms = Some (Some ?S)" by (rule scope)
    show "visibleIds fuel ?t collapsed q (Some ?S) = Some out" unfolding vis by (rule out)
    show "\<forall>m a. m \<in> set ?ms \<and> ancestor_or_self ?t a m \<longrightarrow> a \<in> set out"
      using anc by blast
  qed
qed

lemma parents_of_nodes:
  "map_option parentId (node_at t i) = map_of (map (\<lambda>(k, n). (k, parentId n)) (nodes t)) i"
  by (simp add: node_at_def map_of_map)

lemma parent_ofI: "map_option parentId (node_at t x) = Some (Some p) \<Longrightarrow> parent_of t x p"
  by (auto simp: parent_of_def)

theorem visible_includes_ancestors_witness:
  "\<exists>scope out.
      visibleScopeSet 5 (buildTree (JObject [(''a'', JObject [(''b'', JObject [(''c'', JString ''hit'')])])]))
        ''hit''
        (fst (searchMatchIds (buildTree (JObject [(''a'', JObject [(''b'', JObject [(''c'', JString ''hit'')])])]))
                [] ''hit''))
        = Some (Some scope)
    \<and> visibleIds 5 (buildTree (JObject [(''a'', JObject [(''b'', JObject [(''c'', JString ''hit'')])])]))
        {''node-1''} ''hit'' (Some scope) = Some out
    \<and> ''node-0'' \<in> set out \<and> ''node-1'' \<in> set out \<and> ''node-2'' \<in> set out \<and> ''node-3'' \<in> set out"
proof -
  let ?v = "JObject [(''a'', JObject [(''b'', JObject [(''c'', JString ''hit'')])])]"
  let ?t = "buildTree ?v"
  have ps: "map (\<lambda>(k, n). (k, parentId n)) (nodes ?t)
      = [(''node-0'', None), (''node-1'', Some ''node-0''), (''node-2'', Some ''node-1''),
         (''node-3'', Some ''node-2'')]"
    by code_simp
  have ms: "fst (searchMatchIds ?t [] ''hit'') = [''node-3'']" by code_simp
  have p3: "parent_of ?t ''node-3'' ''node-2''"
    and p2: "parent_of ?t ''node-2'' ''node-1''"
    and p1: "parent_of ?t ''node-1'' ''node-0''"
    by (rule parent_ofI, simp add: parents_of_nodes ps)+
  have a3: "ancestor_or_self ?t ''node-3'' ''node-3''" by (simp add: ancestor_or_self_def)
  from a3 p3 have a2: "ancestor_or_self ?t ''node-2'' ''node-3''" by (rule ancestor_step)
  from a2 p2 have a1: "ancestor_or_self ?t ''node-1'' ''node-3''" by (rule ancestor_step)
  from a1 p1 have a0: "ancestor_or_self ?t ''node-0'' ''node-3''" by (rule ancestor_step)
  have q: "''hit'' \<noteq> []" by simp
  have c: "cache_coherent ?t []" by (simp add: cache_coherent_def)
  have f: "length (nodes ?t) < 5" using arg_cong [OF ps, of length] by simp
  from visible_includes_ancestors [OF q c f, of "{''node-1''}"]
  obtain scope out where
    s: "visibleScopeSet 5 ?t ''hit'' (fst (searchMatchIds ?t [] ''hit'')) = Some (Some scope)"
    and o: "visibleIds 5 ?t {''node-1''} ''hit'' (Some scope) = Some out"
    and all: "\<forall>m a. m \<in> set (fst (searchMatchIds ?t [] ''hit'')) \<and> ancestor_or_self ?t a m
          \<longrightarrow> a \<in> set out"
    by blast
  have m: "''node-3'' \<in> set (fst (searchMatchIds ?t [] ''hit''))" by (simp add: ms)
  from all m a0 a1 a2 a3 have "''node-0'' \<in> set out" "''node-1'' \<in> set out"
    "''node-2'' \<in> set out" "''node-3'' \<in> set out"
    by blast+
  with s o show ?thesis by blast
qed

section \<open>Base64: proofs\<close>































section \<open>Loading: proofs\<close>

lemma try_candidates_fail:
  "cs \<noteq> [] \<Longrightarrow> \<forall>c \<in> set cs. isl (parseJson h c) \<Longrightarrow>
   try_candidates h cs parsed = parseJson h (last cs)"
proof (induction cs arbitrary: parsed)
  case Nil
  then show ?case by simp
next
  case (Cons c cs)
  from Cons.prems obtain e where e: "parseJson h c = Inl e" by (cases "parseJson h c") auto
  show ?case
  proof (cases "cs = []")
    case True
    with e show ?thesis by simp
  next
    case False
    with Cons e show ?thesis by simp
  qed
qed

lemma parseTargets_nonempty: "parseTargets h rawText \<noteq> []"
  by (simp add: parseTargets_def Let_def)

text \<open>
  C7. Whatever the host functions do, when every parse candidate fails the load returns
  \<open>false\<close> and reports the error of the last candidate; it sets the error message,
  clears the parsed value, the raw-collapse flag and the search input, and leaves the
  tree, the collapse state, the selection and the search cache as they were. The result
  is a value: every throwing call is caught inside the load.
\<close>

theorem load_failure_keeps_state:
  assumes "\<forall>c \<in> set (parseTargets h rawText). isl (parseJson h c)"
  shows "\<exists>e. parseJson h (last (parseTargets h rawText)) = Inl e
     \<and> loadFromJsonText h rawText s
         = (False, s\<lparr>errorMessage := Some e, parsedJsonValue := JNull, rawCollapsed := False,
                      searchInput := []\<rparr>)
     \<and> treeData (snd (loadFromJsonText h rawText s)) = treeData s
     \<and> collapsedIds (snd (loadFromJsonText h rawText s)) = collapsedIds s
     \<and> selectedId (snd (loadFromJsonText h rawText s)) = selectedId s
     \<and> searchResultCache (snd (loadFromJsonText h rawText s)) = searchResultCache s"
proof -
  let ?cs = "parseTargets h rawText"
  have ne: "?cs \<noteq> []" by (rule parseTargets_nonempty)
  then have "last ?cs \<in> set ?cs" by simp
  with assms obtain e where e: "parseJson h (last ?cs) = Inl e"
    by (cases "parseJson h (last ?cs)") auto
  from try_candidates_fail [OF ne assms] e
  have "try_candidates h ?cs (Inl NotJson) = Inl e" by simp
  then have "loadFromJsonText h rawText s
      = (False, s\<lparr>errorMessage := Some e, parsedJsonValue := JNull, rawCollapsed := False,
                   searchInput := []\<rparr>)"
    by (simp add: loadFromJsonText_def)
  with e show ?thesis by simp
qed

lemma settle_pending: "length (pending s) \<le> n \<Longrightarrow> pending (settle n s) = []"
proof (induction n arbitrary: s)
  case 0
  then show ?case by simp
next
  case (Suc n)
  show ?case
  proof (cases "pending s")
    case Nil
    then show ?thesis by simp
  next
    case (Cons w ws)
    with Suc.prems have "length (pending ((do_work w s)\<lparr>pending := ws\<rparr>)) \<le> n" by simp
    from Suc.IH [OF this] Cons show ?thesis by simp
  qed
qed

lemma reachable_settle: "reachable h s \<Longrightarrow> reachable h (settle n s)"
proof (induction n arbitrary: s)
  case 0
  then show ?case by simp
next
  case (Suc n)
  show ?case
  proof (cases "pending s")
    case Nil
    with Suc.prems show ?thesis by simp
  next
    case (Cons w ws)
    then have "step h s ((do_work w s)\<lparr>pending := ws\<rparr>)" by (rule step.work)
    with Suc.prems have "reachable h ((do_work w s)\<lparr>pending := ws\<rparr>)"
      unfolding reachable_def by (rule rtranclp.rtrancl_into_rtrancl)
    from Suc.IH [OF this] Cons show ?thesis by simp
  qed
qed

lemma reachable_load: "reachable h s \<Longrightarrow> pending s = [] \<Longrightarrow> reachable h (on_load h rawText s)"
  unfolding reachable_def on_load_def
  by (erule rtranclp.rtrancl_into_rtrancl) (rule step.load)

lemma reachable_type: "reachable h s \<Longrightarrow> pending s = [] \<Longrightarrow> reachable h (on_type text s)"
  unfolding reachable_def on_type_def
  by (erule rtranclp.rtrancl_into_rtrancl) (rule step.type)

lemma pending_on: "pending (on_load h rawText s) = schedule" "pending (on_type text s) = schedule"
  by (simp_all add: on_load_def on_type_def)

lemma stale_state_reachable: "reachable example_host stale_state"
proof -
  let ?s1 = "settle 4 (on_load example_host (JSON_stringify doc_A) initial_state)"
  let ?s2 = "settle 4 (on_type ''hit'' ?s1)"
  have r0: "reachable example_host initial_state" by (simp add: reachable_def)
  have p0: "pending initial_state = []" by (simp add: initial_state_def)
  have r1: "reachable example_host ?s1"
    by (rule reachable_settle [OF reachable_load [OF r0 p0]])
  have p1: "pending ?s1 = []" by (rule settle_pending) (simp add: pending_on schedule_def)
  have r2: "reachable example_host ?s2"
    by (rule reachable_settle [OF reachable_type [OF r1 p1]])
  have p2: "pending ?s2 = []" by (rule settle_pending) (simp add: pending_on schedule_def)
  show ?thesis
    unfolding stale_state_def by (rule reachable_settle [OF reachable_load [OF r2 p2]])
qed

lemma stale_state_facts:
  "treeData stale_state = buildTree doc_B"
  "normalizedSearch stale_state = ''hit''"
  "shownMatchIds stale_state = [''node-1'']"
  "searchResultCache stale_state = [(''hit'', [''node-1''])]"
  "naive_search (buildTree doc_B) ''hit'' = []"
  "naive_search (buildTree doc_A) ''hit'' = [''node-1'']"
  by code_simp+

text \<open>
  C9 fails on the code. \<open>loadFromJsonText\<close> does not clear the search cache; an effect
  does, after the render that follows the load. In that render the deferred query is
  still the old one and the memo reads the cache: in the reachable state \<open>stale_state\<close>
  the tree is that of \<open>doc_B\<close>, the cache still holds the result computed on \<open>doc_A\<close>,
  and the matches shown for \<open>hit\<close> are that cached result, not the scan of \<open>doc_B\<close>.
\<close>

theorem stale_cache_observed:
  "reachable example_host stale_state
   \<and> treeData stale_state = buildTree doc_B
   \<and> normalizedSearch stale_state = ''hit''
   \<and> shownMatchIds stale_state = [''node-1'']
   \<and> naive_search (treeData stale_state) (normalizedSearch stale_state) = []
   \<and> searchResultCache stale_state = [(''hit'', naive_search (buildTree doc_A) ''hit'')]"
  using stale_state_reachable by (simp add: stale_state_facts)

theorem load_failure_keeps_state_witness:
  "fst (loadFromJsonText example_host ''{oops''
          (settle 4 (on_load example_host (JSON_stringify doc_A) initial_state))) = False
   \<and> treeData (snd (loadFromJsonText example_host ''{oops''
          (settle 4 (on_load example_host (JSON_stringify doc_A) initial_state)))) = buildTree doc_A
   \<and> errorMessage (snd (loadFromJsonText example_host ''{oops''
          (settle 4 (on_load example_host (JSON_stringify doc_A) initial_state))))
       = Some (ParseFailed ''Unexpected token'')"
proof -
  let ?s = "settle 4 (on_load example_host (JSON_stringify doc_A) initial_state)"
  have t: "parseTargets example_host ''{oops'' = [''{oops'']" by code_simp
  have p: "parseJson example_host ''{oops'' = Inl (ParseFailed ''Unexpected token'')" by code_simp
  have a: "treeData ?s = buildTree doc_A" by code_simp
  have h: "\<forall>c \<in> set (parseTargets example_host ''{oops''). isl (parseJson example_host c)"
    by (simp add: t p)
  from load_failure_keeps_state [OF h, of ?s] t p a show ?thesis by auto
qed

section \<open>JSON.parse reads back JSON.stringify\<close>








































section \<open>The browser's functions on share text\<close>















section \<open>Every parsed value is a host value\<close>














section \<open>The parser never runs out of fuel\<close>

lemma skip_ws_length: "length (skip_ws s) \<le> length s"
  by (simp add: skip_ws_def length_dropWhile_le)

lemma skip_ws_cons_length: "skip_ws s = c # r \<Longrightarrow> length r < length s"
  using skip_ws_length [of s] by simp

lemma parse_chars_length: "parse_chars cs = Some (k, r) \<Longrightarrow> length r < length cs"
proof (induction cs arbitrary: k r rule: parse_chars.induct)
  case 1
  then show ?case by simp
next
  case (2 c cs)
  show ?case
  proof (cases "c = dquote")
    case True
    with 2(3) show ?thesis by simp
  next
    case nq: False
    show ?thesis
    proof (cases "c = backslash")
      case True
      with nq 2(3) obtain x n k' where u: "unescape cs = Some (x, n)"
        and p: "parse_chars (drop n cs) = Some (k', r)"
        by (auto split: option.splits)
      from 2(1) [OF nq True u refl p] have "length r < length (drop n cs)" .
      then show ?thesis by simp
    next
      case False
      with nq 2(3) obtain k' where c: "\<not> (of_char c :: nat) < 32" and p: "parse_chars cs = Some (k', r)"
        by (auto split: if_splits)
      from 2(2) [OF nq False c p] show ?thesis by simp
    qed
  qed
qed

lemma lex_digits_length: "lex_digits s = Some (d, r) \<Longrightarrow> length r \<le> length s"
  by (auto simp: lex_digits_def length_dropWhile_le split: if_splits)

lemma lex_int_length: "lex_int s = Some (d, r) \<Longrightarrow> length r < length s"
  by (cases s) (auto simp: lex_int_def length_dropWhile_le less_Suc_eq_le split: if_splits)

lemma lex_frac_length: "lex_frac s = Some (d, r) \<Longrightarrow> length r \<le> length s"
  by (cases s) (auto simp: lex_frac_def split: if_splits dest!: lex_digits_length)

lemma lex_exp_length: "lex_exp s = Some (d, r) \<Longrightarrow> length r \<le> length s"
  by (cases s) (auto simp: lex_exp_def split: if_splits list.splits dest!: lex_digits_length)

lemma lex_sign_length: "length (snd (lex_sign s)) \<le> length s"
  by (cases s) (auto simp: lex_sign_def)

lemma lex_number_length:
  assumes "lex_number s = Some (lit, r)"
  shows "length r < length s"
proof -
  from assms obtain i s2 f s3 e where
    i: "lex_int (snd (lex_sign s)) = Some (i, s2)" and
    f: "lex_frac s2 = Some (f, s3)" and
    e: "lex_exp s3 = Some (e, r)"
    by (auto simp: lex_number_def split: option.splits)
  from lex_int_length [OF i] lex_frac_length [OF f] lex_exp_length [OF e] lex_sign_length [of s]
  show ?thesis by linarith
qed

lemma scalar_fuel:
  "c \<noteq> CHR ''{'' \<Longrightarrow> c \<noteq> CHR ''['' \<Longrightarrow>
   parse_value num (Suc a) (c # cs) = parse_value num (Suc b) (c # cs)"
  by (simp add: parse_value.simps)

lemma parse_value_scalar:
  assumes "c \<noteq> CHR ''{''" "c \<noteq> CHR ''[''"
  shows "parse_value num (Suc a) (c # cs) =
     (if c = dquote then map_option (apfst JString) (parse_chars cs)
      else if prefix ''true'' (c # cs) then Some (JBoolean True, drop 4 (c # cs))
      else if prefix ''false'' (c # cs) then Some (JBoolean False, drop 5 (c # cs))
      else if prefix ''null'' (c # cs) then Some (JNull, drop 4 (c # cs))
      else map_option (apfst (\<lambda>lit. JNumber (num lit))) (lex_number (c # cs)))"
  using assms by (simp only: parse_value.simps list.case if_False)

lemma scalar_length:
  assumes "c \<noteq> CHR ''{''" "c \<noteq> CHR ''[''" and "parse_value num (Suc a) (c # cs) = Some (v, r)"
  shows "length r < length (c # cs)"
proof -
  note e = assms(3) [unfolded parse_value_scalar [OF assms(1,2)]]
  consider (s) "c = dquote" | (t) "c \<noteq> dquote" "prefix ''true'' (c # cs)"
    | (f) "c \<noteq> dquote" "\<not> prefix ''true'' (c # cs)" "prefix ''false'' (c # cs)"
    | (n) "c \<noteq> dquote" "\<not> prefix ''true'' (c # cs)" "\<not> prefix ''false'' (c # cs)" "prefix ''null'' (c # cs)"
    | (d) "c \<noteq> dquote" "\<not> prefix ''true'' (c # cs)" "\<not> prefix ''false'' (c # cs)" "\<not> prefix ''null'' (c # cs)"
    by blast
  then show ?thesis
  proof cases
    case s
    with e have "map_option (apfst JString) (parse_chars cs) = Some (v, r)"
      by (simp only: if_True simp_thms)
    then obtain k where "parse_chars cs = Some (k, r)" by auto
    from parse_chars_length [OF this] show ?thesis by simp
  next
    case t
    with e have "Some (JBoolean True, drop 4 (c # cs)) = Some (v, r)" by (simp only: if_True if_False)
    then have "r = drop 4 (c # cs)" by simp
    then show ?thesis by simp
  next
    case f
    with e have "Some (JBoolean False, drop 5 (c # cs)) = Some (v, r)" by (simp only: if_True if_False)
    then have "r = drop 5 (c # cs)" by simp
    then show ?thesis by simp
  next
    case n
    with e have "Some (JNull, drop 4 (c # cs)) = Some (v, r)" by (simp only: if_True if_False)
    then have "r = drop 4 (c # cs)" by simp
    then show ?thesis by simp
  next
    case d
    with e have "map_option (apfst (\<lambda>lit. JNumber (num lit))) (lex_number (c # cs)) = Some (v, r)"
      by (simp only: if_False)
    then obtain lit where "lex_number (c # cs) = Some (lit, r)" by auto
    from lex_number_length [OF this] show ?thesis .
  qed
qed

lemma parse_value_brace:
  "parse_value num (Suc a) (CHR ''{'' # cs) =
     (case skip_ws cs of
        [] \<Rightarrow> None
      | c' # r \<Rightarrow> if c' = CHR ''}'' then Some (JObject [], r) else parse_members num a (c' # r) [])"
  by (simp add: parse_value.simps)

lemma parse_value_bracket:
  "parse_value num (Suc a) (CHR ''['' # cs) =
     (case skip_ws cs of
        [] \<Rightarrow> None
      | c' # r \<Rightarrow> if c' = CHR '']'' then Some (JArray [], r) else parse_elements num a (c' # r) [])"
  by (simp add: parse_value.simps)

lemma parse_fuel:
  "(\<forall>s v r. parse_value num f s = Some (v, r) \<longrightarrow>
       length r < length s
       \<and> (\<forall>f'. 2 * (length s - length r) \<le> f' \<longrightarrow> parse_value num f' s = Some (v, r)))
   \<and> (\<forall>s acc v r. parse_elements num f s acc = Some (v, r) \<longrightarrow>
       length r < length s
       \<and> (\<forall>f'. 2 * (length s - length r) \<le> f' + 1 \<longrightarrow> parse_elements num f' s acc = Some (v, r)))
   \<and> (\<forall>s acc v r. parse_members num f s acc = Some (v, r) \<longrightarrow>
       length r < length s
       \<and> (\<forall>f'. 2 * (length s - length r) \<le> f' + 1 \<longrightarrow> parse_members num f' s acc = Some (v, r)))"
proof (induction f)
  case 0
  show ?case by (simp add: parse_value.simps parse_elements.simps parse_members.simps)
next
  case (Suc f)
  from Suc have
    A: "\<And>s v r. parse_value num f s = Some (v, r) \<Longrightarrow> length r < length s"
    and A': "\<And>s v r f'. parse_value num f s = Some (v, r) \<Longrightarrow> 2 * (length s - length r) \<le> f'
        \<Longrightarrow> parse_value num f' s = Some (v, r)"
    and B: "\<And>s acc v r. parse_elements num f s acc = Some (v, r) \<Longrightarrow> length r < length s"
    and B': "\<And>s acc v r f'. parse_elements num f s acc = Some (v, r) \<Longrightarrow> 2 * (length s - length r) \<le> f' + 1
        \<Longrightarrow> parse_elements num f' s acc = Some (v, r)"
    and C: "\<And>s acc v r. parse_members num f s acc = Some (v, r) \<Longrightarrow> length r < length s"
    and C': "\<And>s acc v r f'. parse_members num f s acc = Some (v, r) \<Longrightarrow> 2 * (length s - length r) \<le> f' + 1
        \<Longrightarrow> parse_members num f' s acc = Some (v, r)"
    by blast+
  have 1: "length r < length s
      \<and> (\<forall>f'. 2 * (length s - length r) \<le> f' \<longrightarrow> parse_value num f' s = Some (v, r))"
    if p: "parse_value num (Suc f) s = Some (v, r)" for s v r
  proof -
    from p obtain c cs where s: "s = c # cs" by (cases s) (auto simp: parse_value.simps)
    consider (obj) "c = CHR ''{''" | (arr) "c = CHR ''[''" | (sc) "c \<noteq> CHR ''{''" "c \<noteq> CHR ''[''"
      by blast
    then show ?thesis
    proof cases
      case obj
      from p obtain c' r0 where w: "skip_ws cs = c' # r0"
        unfolding s obj parse_value_brace by (cases "skip_ws cs") auto
      from skip_ws_length [of cs] w have l0: "Suc (length r0) \<le> length cs" by simp
      show ?thesis
      proof (cases "c' = CHR ''}''")
        case True
        with p w have r: "r = r0" "v = JObject []" unfolding s obj parse_value_brace by simp_all
        have "parse_value num f' s = Some (v, r)" if "2 * (length s - length r) \<le> f'" for f'
        proof -
          from that l0 r s obtain g where "f' = Suc g" by (cases f') auto
          then show ?thesis unfolding s obj using w True r by (simp add: parse_value_brace)
        qed
        with l0 r s show ?thesis by simp
      next
        case False
        with p w have m: "parse_members num f (c' # r0) [] = Some (v, r)"
          unfolding s obj parse_value_brace by simp
        from C [OF m] have l1: "length r < Suc (length r0)" by simp
        have "parse_value num f' s = Some (v, r)" if "2 * (length s - length r) \<le> f'" for f'
        proof -
          from that l0 l1 s obtain g where g: "f' = Suc g" by (cases f') auto
          with that l0 l1 s have "2 * (length (c' # r0) - length r) \<le> g + 1" by simp
          from C' [OF m this] show ?thesis unfolding s obj g using w False by (simp add: parse_value_brace)
        qed
        with l0 l1 s show ?thesis by simp
      qed
    next
      case arr
      from p obtain c' r0 where w: "skip_ws cs = c' # r0"
        unfolding s arr parse_value_bracket by (cases "skip_ws cs") auto
      from skip_ws_length [of cs] w have l0: "Suc (length r0) \<le> length cs" by simp
      show ?thesis
      proof (cases "c' = CHR '']''")
        case True
        with p w have r: "r = r0" "v = JArray []" unfolding s arr parse_value_bracket by simp_all
        have "parse_value num f' s = Some (v, r)" if "2 * (length s - length r) \<le> f'" for f'
        proof -
          from that l0 r s obtain g where "f' = Suc g" by (cases f') auto
          then show ?thesis unfolding s arr using w True r by (simp add: parse_value_bracket)
        qed
        with l0 r s show ?thesis by simp
      next
        case False
        with p w have m: "parse_elements num f (c' # r0) [] = Some (v, r)"
          unfolding s arr parse_value_bracket by simp
        from B [OF m] have l1: "length r < Suc (length r0)" by simp
        have "parse_value num f' s = Some (v, r)" if "2 * (length s - length r) \<le> f'" for f'
        proof -
          from that l0 l1 s obtain g where g: "f' = Suc g" by (cases f') auto
          with that l0 l1 s have "2 * (length (c' # r0) - length r) \<le> g + 1" by simp
          from B' [OF m this] show ?thesis unfolding s arr g using w False by (simp add: parse_value_bracket)
        qed
        with l0 l1 s show ?thesis by simp
      qed
    next
      case sc
      from scalar_length [OF sc p [unfolded s]] have l: "length r < length s" unfolding s .
      have "parse_value num f' s = Some (v, r)" if "2 * (length s - length r) \<le> f'" for f'
      proof -
        from that l obtain g where g: "f' = Suc g" by (cases f') auto
        show ?thesis unfolding g s using scalar_fuel [OF sc, of num g cs f] p [unfolded s] by simp
      qed
      with l show ?thesis by simp
    qed
  qed
  have 2: "length r < length s
      \<and> (\<forall>f'. 2 * (length s - length r) \<le> f' + 1 \<longrightarrow> parse_elements num f' s acc = Some (v, r))"
    if p: "parse_elements num (Suc f) s acc = Some (v, r)" for s acc v r
  proof -
    from p obtain x r1 where x: "parse_value num f s = Some (x, r1)"
      by (auto simp: parse_elements.simps split: option.splits)
    from p x obtain c r' where w: "skip_ws r1 = c # r'"
      by (cases "skip_ws r1") (auto simp: parse_elements.simps)
    from A [OF x] have l1: "length r1 < length s" .
    from skip_ws_length [of r1] w have l2: "Suc (length r') \<le> length r1" by simp
    show ?thesis
    proof (cases "c = CHR '',''")
      case True
      with p x w have e: "parse_elements num f (skip_ws r') (acc @ [x]) = Some (v, r)"
        by (simp add: parse_elements.simps)
      from B [OF e] skip_ws_length [of r'] have l3: "length r < length (skip_ws r')"
        and l4: "length (skip_ws r') \<le> length r'" by simp_all
      have "parse_elements num f' s acc = Some (v, r)" if t: "2 * (length s - length r) \<le> f' + 1" for f'
      proof -
        from t l1 l2 l3 l4 obtain g where g: "f' = Suc g" by (cases f') auto
        from t g l1 l2 l3 l4 have "2 * (length s - length r1) \<le> g" by simp
        from A' [OF x this] have pv: "parse_value num g s = Some (x, r1)" .
        from t g l1 l2 l3 l4 have "2 * (length (skip_ws r') - length r) \<le> g + 1" by simp
        from B' [OF e this] have pe: "parse_elements num g (skip_ws r') (acc @ [x]) = Some (v, r)" .
        show ?thesis unfolding g using pv w True pe by (simp add: parse_elements.simps)
      qed
      with l1 l2 l3 l4 show ?thesis by simp
    next
      case False
      with p x w have c: "c = CHR '']''" and r: "r = r'" "v = JArray (acc @ [x])"
        by (auto simp: parse_elements.simps split: if_splits)
      have "parse_elements num f' s acc = Some (v, r)" if t: "2 * (length s - length r) \<le> f' + 1" for f'
      proof -
        from t l1 l2 r obtain g where g: "f' = Suc g" by (cases f') auto
        from t g l1 l2 r have "2 * (length s - length r1) \<le> g" by simp
        from A' [OF x this] have pv: "parse_value num g s = Some (x, r1)" .
        show ?thesis unfolding g using pv w c r by (simp add: parse_elements.simps)
      qed
      with l1 l2 r show ?thesis by simp
    qed
  qed
  have 3: "length r < length s
      \<and> (\<forall>f'. 2 * (length s - length r) \<le> f' + 1 \<longrightarrow> parse_members num f' s acc = Some (v, r))"
    if p: "parse_members num (Suc f) s acc = Some (v, r)" for s acc v r
  proof -
    from p obtain cs where s: "s = dquote # cs"
      by (cases s) (auto simp: parse_members.simps split: if_splits)
    from p obtain k r0 where k: "parse_chars cs = Some (k, r0)"
      unfolding s by (auto simp: parse_members.simps split: option.splits)
    from p k obtain c1 r1 where w1: "skip_ws r0 = c1 # r1"
      unfolding s by (cases "skip_ws r0") (auto simp: parse_members.simps)
    from p k w1 have c1: "c1 = CHR '':''"
      unfolding s by (auto simp: parse_members.simps split: if_splits)
    from p k w1 c1 obtain x r2 where x: "parse_value num f (skip_ws r1) = Some (x, r2)"
      unfolding s by (auto simp: parse_members.simps split: option.splits)
    from p k w1 c1 x obtain c2 r3 where w2: "skip_ws r2 = c2 # r3"
      unfolding s by (cases "skip_ws r2") (auto simp: parse_members.simps)
    from parse_chars_length [OF k] have l0: "length r0 < length cs" .
    from skip_ws_length [of r0] w1 have l1: "Suc (length r1) \<le> length r0" by simp
    from A [OF x] skip_ws_length [of r1] have l2: "length r2 < length (skip_ws r1)"
      and l2': "length (skip_ws r1) \<le> length r1" by simp_all
    from skip_ws_length [of r2] w2 have l3: "Suc (length r3) \<le> length r2" by simp
    show ?thesis
    proof (cases "c2 = CHR '',''")
      case True
      with p k w1 c1 x w2 have
        e: "parse_members num f (skip_ws r3) (CreateDataProperty acc k x) = Some (v, r)"
        unfolding s by (simp add: parse_members.simps)
      from C [OF e] skip_ws_length [of r3] have l4: "length r < length (skip_ws r3)"
        and l5: "length (skip_ws r3) \<le> length r3" by simp_all
      have "parse_members num f' s acc = Some (v, r)" if t: "2 * (length s - length r) \<le> f' + 1" for f'
      proof -
        from t s l0 l1 l2 l2' l3 l4 l5 obtain g where g: "f' = Suc g" by (cases f') auto
        from t g s l0 l1 l2 l2' l3 l4 l5 have "2 * (length (skip_ws r1) - length r2) \<le> g" by simp
        from A' [OF x this] have pv: "parse_value num g (skip_ws r1) = Some (x, r2)" .
        from t g s l0 l1 l2 l2' l3 l4 l5 have "2 * (length (skip_ws r3) - length r) \<le> g + 1" by simp
        from C' [OF e this]
        have pm: "parse_members num g (skip_ws r3) (CreateDataProperty acc k x) = Some (v, r)" .
        show ?thesis unfolding g s using k w1 c1 pv w2 True pm by (simp add: parse_members.simps)
      qed
      with s l0 l1 l2 l2' l3 l4 l5 show ?thesis by simp
    next
      case False
      with p k w1 c1 x w2 have c: "c2 = CHR ''}''" and r: "r = r3" "v = JObject (CreateDataProperty acc k x)"
        unfolding s by (auto simp: parse_members.simps split: if_splits)
      have "parse_members num f' s acc = Some (v, r)" if t: "2 * (length s - length r) \<le> f' + 1" for f'
      proof -
        from t s r l0 l1 l2 l2' l3 obtain g where g: "f' = Suc g" by (cases f') auto
        from t g s r l0 l1 l2 l2' l3 have "2 * (length (skip_ws r1) - length r2) \<le> g" by simp
        from A' [OF x this] have pv: "parse_value num g (skip_ws r1) = Some (x, r2)" .
        show ?thesis unfolding g s using k w1 c1 pv w2 c r by (simp add: parse_members.simps)
      qed
      with s r l0 l1 l2 l2' l3 show ?thesis by simp
    qed
  qed
  from 1 2 3 show ?case by blast
qed

lemma JSON_parse_any_fuel:
  "JSON_parse num text = Inr v \<longleftrightarrow> (\<exists>f r. parse_value num f (skip_ws text) = Some (v, r) \<and> skip_ws r = [])"
proof
  assume "JSON_parse num text = Inr v"
  then show "\<exists>f r. parse_value num f (skip_ws text) = Some (v, r) \<and> skip_ws r = []"
    by (auto simp: JSON_parse_def split: option.splits if_splits) blast
next
  assume "\<exists>f r. parse_value num f (skip_ws text) = Some (v, r) \<and> skip_ws r = []"
  then obtain f r where p: "parse_value num f (skip_ws text) = Some (v, r)" and r: "skip_ws r = []"
    by blast
  from skip_ws_length [of "text"]
  have "2 * (length (skip_ws text) - length r) \<le> 2 * length text + 2" by simp
  with parse_fuel [of num f] p
  have "parse_value num (2 * length text + 2) (skip_ws text) = Some (v, r)" by blast
  with r show "JSON_parse num text = Inr v" by (simp add: JSON_parse_def)
qed

section \<open>Sharing: proofs\<close>







end
